theory Spec2Isabelle
  imports Main "HOL-Library.Multiset" "HOL-Library.Char_ord" "HOL-Library.List_Lexorder"
    "HOL-Library.AList"
begin

section \<open>JSON values, lexemes and errors\<close>

text \<open>
  A generic JSON value, as Go's \<^verbatim>\<open>interface{}\<close> holds it after decoding. Numbers are
  kept as integers; an object keeps its attributes as an association list.
\<close>

datatype json =
    JNull
  | JBool bool
  | JNum int
  | JStr string
  | JArr "json list"
  | JObj "(string \<times> json) list"

text \<open>
  The text of a file after lexing (white space is insignificant to the decoder, which
  skips it in \<^verbatim>\<open>peek\<close>).
\<close>

datatype lexeme =
    LBrace | RBrace | LBrack | RBrack | Colon | Comma
  | LStr string | LNum int | LBool bool | LNull

datatype error =
    EOF
  | ErrUnexpectedEOF
  | SyntaxError
  | UnmarshalTypeError
  | GoPanic
  | Empty
  | NotFound string
  | OpenError string
  | RemoveError string
  | CloseReaderError error
  | Unsortable
  | KeyFuncError string
  | Joined error error
  | RetryTimeout
  | TempFileError

section \<open>Go's \<^verbatim>\<open>json.Decoder\<close>: reading one value\<close>

datatype frame =
    FArr "json list"
  | FObj "(string \<times> json) list"
  | FKey "(string \<times> json) list" string

datatype pstate = PValue | PValueOrEnd | PKeyOrEnd | PKey | PColon | PAfter

datatype pushed = Done json | Cont "frame list"

fun push_value :: "json \<Rightarrow> frame list \<Rightarrow> pushed option" where
  "push_value v [] = Some (Done v)"
| "push_value v (FArr xs # fs) = Some (Cont (FArr (v # xs) # fs))"
| "push_value v (FKey kvs k # fs) = Some (Cont (FObj ((k, v) # kvs) # fs))"
| "push_value v (FObj kvs # fs) = None"

fun scalar_of :: "lexeme \<Rightarrow> json option" where
  "scalar_of (LStr s) = Some (JStr s)"
| "scalar_of (LNum n) = Some (JNum n)"
| "scalar_of (LBool b) = Some (JBool b)"
| "scalar_of LNull = Some JNull"
| "scalar_of _ = None"

text \<open>
  \<^verbatim>\<open>readValue\<close> followed by the generic unmarshal: scans one complete JSON value off the
  front of the input. The scanner's states are \<open>pstate\<close>; the open containers are the
  frames. Input that ends inside a value is \<open>ErrUnexpectedEOF\<close>.
\<close>

fun scan :: "pstate \<Rightarrow> frame list \<Rightarrow> lexeme list \<Rightarrow> error + (json \<times> lexeme list)" where
  "scan st fs [] = Inl ErrUnexpectedEOF"
| "scan PValue fs (c # cs) =
     (if c = LBrack then scan PValueOrEnd (FArr [] # fs) cs
      else if c = LBrace then scan PKeyOrEnd (FObj [] # fs) cs
      else (case scalar_of c of
              None \<Rightarrow> Inl SyntaxError
            | Some v \<Rightarrow>
                (case push_value v fs of
                   None \<Rightarrow> Inl SyntaxError
                 | Some (Done w) \<Rightarrow> Inr (w, cs)
                 | Some (Cont fs') \<Rightarrow> scan PAfter fs' cs)))"
| "scan PValueOrEnd fs (c # cs) =
     (if c = RBrack then
        (case fs of
           FArr xs # fs0 \<Rightarrow>
             (case push_value (JArr (rev xs)) fs0 of
                None \<Rightarrow> Inl SyntaxError
              | Some (Done w) \<Rightarrow> Inr (w, cs)
              | Some (Cont fs') \<Rightarrow> scan PAfter fs' cs)
         | _ \<Rightarrow> Inl SyntaxError)
      else if c = LBrack then scan PValueOrEnd (FArr [] # fs) cs
      else if c = LBrace then scan PKeyOrEnd (FObj [] # fs) cs
      else (case scalar_of c of
              None \<Rightarrow> Inl SyntaxError
            | Some v \<Rightarrow>
                (case push_value v fs of
                   None \<Rightarrow> Inl SyntaxError
                 | Some (Done w) \<Rightarrow> Inr (w, cs)
                 | Some (Cont fs') \<Rightarrow> scan PAfter fs' cs)))"
| "scan PKeyOrEnd fs (c # cs) =
     (if c = RBrace then
        (case fs of
           FObj kvs # fs0 \<Rightarrow>
             (case push_value (JObj (rev kvs)) fs0 of
                None \<Rightarrow> Inl SyntaxError
              | Some (Done w) \<Rightarrow> Inr (w, cs)
              | Some (Cont fs') \<Rightarrow> scan PAfter fs' cs)
         | _ \<Rightarrow> Inl SyntaxError)
      else (case (c, fs) of
              (LStr k, FObj kvs # fs0) \<Rightarrow> scan PColon (FKey kvs k # fs0) cs
            | _ \<Rightarrow> Inl SyntaxError))"
| "scan PKey fs (c # cs) =
     (case (c, fs) of
        (LStr k, FObj kvs # fs0) \<Rightarrow> scan PColon (FKey kvs k # fs0) cs
      | _ \<Rightarrow> Inl SyntaxError)"
| "scan PColon fs (c # cs) =
     (if c = Colon then scan PValue fs cs else Inl SyntaxError)"
| "scan PAfter fs (c # cs) =
     (case fs of
        FArr xs # fs0 \<Rightarrow>
          (if c = Comma then scan PValue fs cs
           else if c = RBrack then
             (case push_value (JArr (rev xs)) fs0 of
                None \<Rightarrow> Inl SyntaxError
              | Some (Done w) \<Rightarrow> Inr (w, cs)
              | Some (Cont fs') \<Rightarrow> scan PAfter fs' cs)
           else Inl SyntaxError)
      | FObj kvs # fs0 \<Rightarrow>
          (if c = Comma then scan PKey fs cs
           else if c = RBrace then
             (case push_value (JObj (rev kvs)) fs0 of
                None \<Rightarrow> Inl SyntaxError
              | Some (Done w) \<Rightarrow> Inr (w, cs)
              | Some (Cont fs') \<Rightarrow> scan PAfter fs' cs)
           else Inl SyntaxError)
      | _ \<Rightarrow> Inl SyntaxError)"

definition readValue :: "lexeme list \<Rightarrow> error + (json \<times> lexeme list)" where
  "readValue cs = (if cs = [] then Inl EOF else scan PValue [] cs)"

section \<open>Go's \<^verbatim>\<open>json.Decoder\<close>: the token interface\<close>

datatype tstate =
    TopValue | ArrayStart | ArrayValue | ArrayComma
  | ObjectStart | ObjectKey | ObjectColon | ObjectValue | ObjectComma

record decoder =
  buf :: "lexeme list"
  tokenState :: tstate
  tokenStack :: "tstate list"

datatype token = Delim lexeme | TValue json

definition NewDecoder :: "lexeme list \<Rightarrow> decoder" where
  "NewDecoder cs = \<lparr>buf = cs, tokenState = TopValue, tokenStack = []\<rparr>"

definition tokenValueAllowed :: "tstate \<Rightarrow> bool" where
  "tokenValueAllowed st \<longleftrightarrow> st = TopValue \<or> st = ArrayStart \<or> st = ArrayValue \<or> st = ObjectValue"

definition tokenValueEnd :: "tstate \<Rightarrow> tstate" where
  "tokenValueEnd st =
     (if st = ArrayStart \<or> st = ArrayValue then ArrayComma
      else if st = ObjectValue then ObjectComma
      else st)"

text \<open>
  \<^verbatim>\<open>More\<close>: the next byte that is not white space exists and is neither \<^verbatim>\<open>]\<close> nor
  \<^verbatim>\<open>}\<close>. A colon or a comma counts as more.
\<close>

definition More :: "decoder \<Rightarrow> bool" where
  "More dec = (case buf dec of [] \<Rightarrow> False | c # _ \<Rightarrow> c \<noteq> RBrack \<and> c \<noteq> RBrace)"

definition tokenPrepareForDecode :: "decoder \<Rightarrow> error + decoder" where
  "tokenPrepareForDecode dec =
     (if tokenState dec = ArrayComma then
        (case buf dec of
           [] \<Rightarrow> Inl EOF
         | c # cs \<Rightarrow>
             if c \<noteq> Comma then Inl SyntaxError
             else Inr (dec\<lparr>buf := cs, tokenState := ArrayValue\<rparr>))
      else if tokenState dec = ObjectColon then
        (case buf dec of
           [] \<Rightarrow> Inl EOF
         | c # cs \<Rightarrow>
             if c \<noteq> Colon then Inl SyntaxError
             else Inr (dec\<lparr>buf := cs, tokenState := ObjectValue\<rparr>))
      else Inr dec)"

text \<open>
  \<^verbatim>\<open>Decode(&v)\<close>, with the unmarshalling into the type of \<open>v\<close> as a parameter. An
  unmarshalling error is returned after the value has been consumed.
\<close>

definition Decode :: "(json \<Rightarrow> error + 'a) \<Rightarrow> decoder \<Rightarrow> (error + 'a) \<times> decoder" where
  "Decode unmarshal dec =
     (case tokenPrepareForDecode dec of
        Inl e \<Rightarrow> (Inl e, dec)
      | Inr dec1 \<Rightarrow>
          if \<not> tokenValueAllowed (tokenState dec1) then (Inl SyntaxError, dec1)
          else (case readValue (buf dec1) of
                  Inl e \<Rightarrow> (Inl e, dec1)
                | Inr (v, rest) \<Rightarrow>
                    (unmarshal v,
                     dec1\<lparr>buf := rest, tokenState := tokenValueEnd (tokenState dec1)\<rparr>)))"

text \<open>Unmarshalling into \<^verbatim>\<open>interface{}\<close> and into \<^verbatim>\<open>map[string]interface{}\<close>
  (\<open>None\<close> is the nil map that \<^verbatim>\<open>null\<close> leaves).\<close>

definition unmarshal_any :: "json \<Rightarrow> error + json" where
  "unmarshal_any v = Inr v"

type_synonym gomap = "(string \<times> json) list option"

fun unmarshal_map :: "json \<Rightarrow> error + gomap" where
  "unmarshal_map (JObj kvs) = Inr (Some kvs)"
| "unmarshal_map JNull = Inr None"
| "unmarshal_map _ = Inl UnmarshalTypeError"

fun is_string :: "lexeme \<Rightarrow> bool" where
  "is_string (LStr s) = True"
| "is_string _ = False"

fun token_loop :: "tstate \<Rightarrow> tstate list \<Rightarrow> lexeme list \<Rightarrow> (error + token) \<times> decoder" where
  "token_loop st stk [] = (Inl EOF, \<lparr>buf = [], tokenState = st, tokenStack = stk\<rparr>)"
| "token_loop st stk (c # cs) =
     (let here = \<lparr>buf = c # cs, tokenState = st, tokenStack = stk\<rparr> in
      if c = LBrack then
        (if \<not> tokenValueAllowed st then (Inl SyntaxError, here)
         else (Inr (Delim LBrack), \<lparr>buf = cs, tokenState = ArrayStart, tokenStack = stk @ [st]\<rparr>))
      else if c = RBrack then
        (if st \<noteq> ArrayStart \<and> st \<noteq> ArrayComma then (Inl SyntaxError, here)
         else if stk = [] then (Inl GoPanic, here)
         else (Inr (Delim RBrack),
               \<lparr>buf = cs, tokenState = tokenValueEnd (last stk), tokenStack = butlast stk\<rparr>))
      else if c = LBrace then
        (if \<not> tokenValueAllowed st then (Inl SyntaxError, here)
         else (Inr (Delim LBrace), \<lparr>buf = cs, tokenState = ObjectStart, tokenStack = stk @ [st]\<rparr>))
      else if c = RBrace then
        (if st \<noteq> ObjectStart \<and> st \<noteq> ObjectComma then (Inl SyntaxError, here)
         else if stk = [] then (Inl GoPanic, here)
         else (Inr (Delim RBrace),
               \<lparr>buf = cs, tokenState = tokenValueEnd (last stk), tokenStack = butlast stk\<rparr>))
      else if c = Colon then
        (if st \<noteq> ObjectColon then (Inl SyntaxError, here)
         else token_loop ObjectValue stk cs)
      else if c = Comma then
        (if st = ArrayComma then token_loop ArrayValue stk cs
         else if st = ObjectComma then token_loop ObjectKey stk cs
         else (Inl SyntaxError, here))
      else if is_string c \<and> (st = ObjectStart \<or> st = ObjectKey) then
        (case Decode unmarshal_any (here\<lparr>tokenState := TopValue\<rparr>) of
           (Inl e, d) \<Rightarrow> (Inl e, d\<lparr>tokenState := st\<rparr>)
         | (Inr x, d) \<Rightarrow> (Inr (TValue x), d\<lparr>tokenState := ObjectColon\<rparr>))
      else
        (if \<not> tokenValueAllowed st then (Inl SyntaxError, here)
         else (case Decode unmarshal_any here of
                 (Inl e, d) \<Rightarrow> (Inl e, d)
               | (Inr x, d) \<Rightarrow> (Inr (TValue x), d))))"

definition Token :: "decoder \<Rightarrow> (error + token) \<times> decoder" where
  "Token dec = token_loop (tokenState dec) (tokenStack dec) (buf dec)"

lemma push_value_Cont_length:
  "push_value v fs = Some (Cont fs') \<Longrightarrow> length fs' = length fs"
  by (cases "(v, fs)" rule: push_value.cases) auto

lemma scan_shorter:
  "scan st fs cs = Inr (v, rest) \<Longrightarrow> length rest < length cs"
  by (induction st fs cs rule: scan.induct)
     (simp_all split: if_splits option.splits pushed.splits list.splits frame.splits
        lexeme.splits prod.splits, fastforce+)

lemma readValue_shorter:
  "readValue cs = Inr (v, rest) \<Longrightarrow> length rest < length cs"
  by (auto simp: readValue_def scan_shorter split: if_splits)

lemma tokenPrepareForDecode_length:
  "tokenPrepareForDecode dec = Inr dec1 \<Longrightarrow> length (buf dec1) \<le> length (buf dec)"
  by (auto simp: tokenPrepareForDecode_def split: if_splits list.splits)

lemma Decode_shorter:
  "Decode um dec = (Inr x, dec') \<Longrightarrow> length (buf dec') < length (buf dec)"
  by (auto simp: Decode_def split: sum.splits if_splits prod.splits
      dest!: readValue_shorter tokenPrepareForDecode_length)

lemma token_loop_shorter:
  "token_loop st stk cs = (Inr t, dec') \<Longrightarrow> length (buf dec') < length cs"
proof (induction st stk cs rule: token_loop.induct)
  case (1 st stk)
  then show ?case by simp
next
  case (2 st stk c cs)
  let ?here = "\<lparr>buf = c # cs, tokenState = st, tokenStack = stk\<rparr>"
  have d: "length (buf d) < length (c # cs)"
    if "Decode unmarshal_any (?here\<lparr>tokenState := s\<rparr>) = (Inr x, d)" for s x d
    using Decode_shorter [OF that] by simp
  consider (colon) "c = Colon" "st = ObjectColon"
    | (comma1) "c = Comma" "st = ArrayComma"
    | (comma2) "c = Comma" "st = ObjectComma"
    | (other) "\<not> (c = Colon \<and> st = ObjectColon)" "\<not> (c = Comma \<and> st = ArrayComma)"
        "\<not> (c = Comma \<and> st = ObjectComma)"
    by blast
  then show ?case
  proof cases
    case colon
    with "2.prems" "2.IH"(1) show ?thesis by (simp add: Let_def)
  next
    case comma1
    with "2.prems" "2.IH"(2) show ?thesis by (simp add: Let_def)
  next
    case comma2
    with "2.prems" "2.IH"(3) show ?thesis by (simp add: Let_def)
  next
    case other
    with "2.prems" d [of st] d show ?thesis
      by (simp add: Let_def split: if_splits prod.splits sum.splits) force+
  qed
qed

lemma Token_shorter:
  "Token dec = (Inr t, dec') \<Longrightarrow> length (buf dec') < length (buf dec)"
  by (simp add: Token_def token_loop_shorter)

section \<open>The positioning decoder\<close>

text \<open>
  \<^verbatim>\<open>findDecoderTargetPosition\<close>. The result is the returned error (\<open>None\<close> for
  \<^verbatim>\<open>nil\<close>) and the decoder as the call leaves it. \<^verbatim>\<open>t == target\<close> compares an
  interface value with a Go string: it holds exactly for a string token of that text.
\<close>

function findDecoderTargetPosition :: "decoder \<Rightarrow> string \<Rightarrow> bool \<Rightarrow> error option \<times> decoder" where
  "findDecoderTargetPosition dec target isArray =
     (if More dec then
        (case Token dec of
           (Inl e, dec1) \<Rightarrow> (Some e, dec1)
         | (Inr t, dec1) \<Rightarrow>
             if t = TValue (JStr target) then
               (if isArray then
                  (case Token dec1 of
                     (Inl e, dec2) \<Rightarrow> (Some e, dec2)
                   | (Inr _, dec2) \<Rightarrow> (None, dec2))
                else (None, dec1))
             else findDecoderTargetPosition dec1 target isArray)
      else (None, dec))"
  by pat_completeness auto
termination
  by (relation "measure (\<lambda>(dec, target, isArray). length (buf dec))")
     (auto dest: Token_shorter [OF sym])

declare findDecoderTargetPosition.simps [simp del]

lemmas decoder_eval = findDecoderTargetPosition.simps NewDecoder_def More_def Token_def tokenValueAllowed_def
  tokenValueEnd_def Decode_def tokenPrepareForDecode_def readValue_def unmarshal_any_def
  Let_def

section \<open>The file system and the error sink\<close>

text \<open>
  The disk: the files by path, each with its content as lexemes. \<open>busy p\<close> is the number
  of coming \<^verbatim>\<open>os.Remove\<close> calls on \<open>p\<close> that fail (a file still held open, say);
  \<open>removeCalls\<close> logs every \<^verbatim>\<open>os.Remove\<close> call; \<open>tmpOk\<close> tells whether a temporary
  file can be created. The empty path names no file.
\<close>

record filesys =
  files :: "(string \<times> lexeme list) list"
  busy :: "string \<Rightarrow> nat"
  removeCalls :: "string list"
  tmpOk :: bool

definition readFile :: "filesys \<Rightarrow> string \<Rightarrow> lexeme list option" where
  "readFile fs p = (if p = [] then None else map_of (files fs) p)"

definition fileExists :: "filesys \<Rightarrow> string \<Rightarrow> bool" where
  "fileExists fs p \<longleftrightarrow> readFile fs p \<noteq> None"

text \<open>\<^verbatim>\<open>os.Remove\<close>: fails while the path is busy and on a path that does not exist.\<close>

definition osRemove :: "string \<Rightarrow> filesys \<Rightarrow> error option \<times> filesys" where
  "osRemove p fs =
     (let fs1 = fs\<lparr>removeCalls := removeCalls fs @ [p]\<rparr> in
      if 0 < busy fs p then (Some (RemoveError p), fs1\<lparr>busy := (busy fs)(p := busy fs p - 1)\<rparr>)
      else if \<not> fileExists fs p then (Some (RemoveError p), fs1)
      else (None, fs1\<lparr>files := AList.delete p (files fs)\<rparr>))"

text \<open>
  Modelled from the spec: \<^verbatim>\<open>utils.ErrorsQueue\<close> is not among the sources. The spec has
  it as an error sink, a FIFO of the errors met; \<^verbatim>\<open>GetError\<close> returns the first error
  of the sink (\<open>None\<close> when there is none), which reading takes off the queue.
\<close>

type_synonym ErrorsQueue = "error list"

definition AddError :: "error \<Rightarrow> ErrorsQueue \<Rightarrow> ErrorsQueue" where
  "AddError e q = q @ [e]"

definition queueGetError :: "ErrorsQueue \<Rightarrow> error option \<times> ErrorsQueue" where
  "queueGetError q = (case q of [] \<Rightarrow> (None, []) | e # q' \<Rightarrow> (Some e, q'))"

section \<open>The reader\<close>

text \<open>
  \<^verbatim>\<open>ContentReader\<close>. The producer goroutine and its channel are modelled sequentially:
  when the latch \<open>once\<close> fires, the producer runs to its end, and \<open>dataChannel\<close> holds
  what it sent and the consumer has not yet received; the channel is closed when that
  list is empty and the latch has fired. \<open>length'\<close> is Go's \<^verbatim>\<open>int\<close>, far from its
  bounds here.
\<close>

record ContentReader =
  filesPaths :: "string list"
  arrayKey :: string
  dataChannel :: "gomap list"
  errorsQueue :: ErrorsQueue
  once :: bool
  length' :: nat
  empty :: bool

definition NewMultiSourceContentReader :: "string list \<Rightarrow> string \<Rightarrow> ContentReader" where
  "NewMultiSourceContentReader filePaths key =
     \<lparr>filesPaths = filePaths, arrayKey = key, dataChannel = [], errorsQueue = [],
      once = False, length' = 0, empty = (length filePaths = 0)\<rparr>"

definition NewContentReader :: "string \<Rightarrow> string \<Rightarrow> ContentReader" where
  "NewContentReader filePath key =
     (NewMultiSourceContentReader [filePath] key)\<lparr>empty := (filePath = [])\<rparr>"

definition NewEmptyContentReader :: "string \<Rightarrow> ContentReader" where
  "NewEmptyContentReader key = NewContentReader [] key"

definition IsEmpty :: "ContentReader \<Rightarrow> bool" where
  "IsEmpty cr = empty cr"

definition GetFilesPaths :: "ContentReader \<Rightarrow> string list" where
  "GetFilesPaths cr = filesPaths cr"

definition GetError :: "ContentReader \<Rightarrow> error option \<times> ContentReader" where
  "GetError cr =
     (case queueGetError (errorsQueue cr) of (r, q) \<Rightarrow> (r, cr\<lparr>errorsQueue := q\<rparr>))"

definition Reset :: "ContentReader \<Rightarrow> ContentReader" where
  "Reset cr = cr\<lparr>dataChannel := [], once := False\<rparr>"

definition json_of_gomap :: "gomap \<Rightarrow> json" where
  "json_of_gomap m = (case m of None \<Rightarrow> JNull | Some kvs \<Rightarrow> JObj kvs)"

text \<open>
  \<^verbatim>\<open>ConvertToStruct\<close>: the record is marshalled and unmarshalled into the caller's
  type, whose unmarshalling is the parameter.
\<close>

definition ConvertToStruct :: "(json \<Rightarrow> error + 'a) \<Rightarrow> gomap \<Rightarrow> error + 'a" where
  "ConvertToStruct unmarshal rec = unmarshal (json_of_gomap rec)"

text \<open>The loop of \<^verbatim>\<open>readSingleFile\<close> over the elements of the array.\<close>

function readElements :: "decoder \<Rightarrow> ContentReader \<Rightarrow> ContentReader" where
  "readElements dec cr =
     (if More dec then
        (case Decode unmarshal_map dec of
           (Inl e, dec1) \<Rightarrow> cr\<lparr>errorsQueue := AddError e (errorsQueue cr)\<rparr>
         | (Inr item, dec1) \<Rightarrow>
             readElements dec1 (cr\<lparr>dataChannel := dataChannel cr @ [item]\<rparr>))
      else cr)"
  by pat_completeness auto
termination
  by (relation "measure (\<lambda>(dec, cr). length (buf dec))")
     (auto dest: Decode_shorter [OF sym])

declare readElements.simps [simp del]

definition readSingleFile :: "filesys \<Rightarrow> string \<Rightarrow> ContentReader \<Rightarrow> ContentReader" where
  "readSingleFile fs filePath cr =
     (case readFile fs filePath of
        None \<Rightarrow> cr\<lparr>errorsQueue := AddError (OpenError filePath) (errorsQueue cr)\<rparr>
      | Some content \<Rightarrow>
          (case findDecoderTargetPosition (NewDecoder content) (arrayKey cr) True of
             (Some e, dec) \<Rightarrow>
               if e = EOF
               then cr\<lparr>errorsQueue := AddError (NotFound (arrayKey cr @ '' not found'')) (errorsQueue cr)\<rparr>
               else cr\<lparr>errorsQueue := AddError e (errorsQueue cr)\<rparr>
           | (None, dec) \<Rightarrow> readElements dec cr))"

fun run :: "filesys \<Rightarrow> string list \<Rightarrow> ContentReader \<Rightarrow> ContentReader" where
  "run fs [] cr = cr"
| "run fs (filePath # rest) cr = run fs rest (readSingleFile fs filePath cr)"

definition NextRecord ::
  "(json \<Rightarrow> error + 'a) \<Rightarrow> filesys \<Rightarrow> ContentReader \<Rightarrow> (error + 'a) \<times> ContentReader" where
  "NextRecord unmarshal fs cr =
     (if empty cr then (Inl Empty, cr)
      else
        (let cr1 = (if once cr then cr
                    else run fs (filesPaths cr) (cr\<lparr>once := True, length' := 0\<rparr>))
         in case dataChannel cr1 of
              [] \<Rightarrow> (Inl EOF, cr1)
            | rec # rest \<Rightarrow>
                (case ConvertToStruct unmarshal rec of
                   Inl e \<Rightarrow>
                     (Inl e, cr1\<lparr>dataChannel := rest, errorsQueue := AddError e (errorsQueue cr1)\<rparr>)
                 | Inr v \<Rightarrow>
                     (Inr v, cr1\<lparr>dataChannel := rest, length' := length' cr1 + 1\<rparr>))))"

section \<open>Draining a reader and its length\<close>

text \<open>
  The number of records a reader can still deliver: those left in the channel, or, before
  the latch has fired, those its producer will send when it runs on the disk as it is.
\<close>

definition pendingCount :: "filesys \<Rightarrow> ContentReader \<Rightarrow> nat" where
  "pendingCount fs cr =
     (if empty cr then 0
      else if once cr then length (dataChannel cr)
      else Suc (length (dataChannel (run fs (filesPaths cr) (cr\<lparr>once := True, length' := 0\<rparr>)))))"

lemma readElements_frame:
  "filesPaths (readElements dec cr) = filesPaths cr \<and> arrayKey (readElements dec cr) = arrayKey cr
   \<and> once (readElements dec cr) = once cr \<and> length' (readElements dec cr) = length' cr
   \<and> empty (readElements dec cr) = empty cr"
proof (induction dec cr rule: readElements.induct)
  case (1 dec cr)
  show ?case
  proof (cases "More dec")
    case False
    then show ?thesis by (simp add: readElements.simps [of dec])
  next
    case True
    obtain r dec1 where d: "Decode unmarshal_map dec = (r, dec1)"
      by (cases "Decode unmarshal_map dec")
    show ?thesis
    proof (cases r)
      case (Inl e)
      with True d show ?thesis by (simp add: readElements.simps [of dec])
    next
      case (Inr item)
      with True d "1.IH" [OF True d [symmetric, unfolded Inr] refl] show ?thesis
        by (simp add: readElements.simps [of dec])
    qed
  qed
qed

lemma readSingleFile_frame:
  "filesPaths (readSingleFile fs p cr) = filesPaths cr
   \<and> arrayKey (readSingleFile fs p cr) = arrayKey cr
   \<and> once (readSingleFile fs p cr) = once cr \<and> length' (readSingleFile fs p cr) = length' cr
   \<and> empty (readSingleFile fs p cr) = empty cr"
  by (simp add: readSingleFile_def readElements_frame split: option.splits prod.splits)

lemma run_frame:
  "filesPaths (run fs ps cr) = filesPaths cr \<and> arrayKey (run fs ps cr) = arrayKey cr
   \<and> once (run fs ps cr) = once cr \<and> length' (run fs ps cr) = length' cr
   \<and> empty (run fs ps cr) = empty cr"
  by (induction ps arbitrary: cr) (simp_all add: readSingleFile_frame)

lemma NextRecord_pendingCount:
  "NextRecord um fs cr = (Inr v, cr1) \<Longrightarrow> pendingCount fs1 cr1 < pendingCount fs cr"
  by (auto simp: NextRecord_def pendingCount_def Let_def run_frame
      split: if_splits list.splits sum.splits)

text \<open>The loop of \<^verbatim>\<open>Length\<close>: \<^verbatim>\<open>NextRecord\<close> into a fresh generic value until it fails.\<close>

function lengthLoop :: "filesys \<Rightarrow> ContentReader \<Rightarrow> ContentReader" where
  "lengthLoop fs cr =
     (case NextRecord unmarshal_any fs cr of
        (Inl e, cr1) \<Rightarrow> cr1
      | (Inr item, cr1) \<Rightarrow> lengthLoop fs cr1)"
  by pat_completeness auto
termination
  by (relation "measure (\<lambda>(fs, cr). pendingCount fs cr)")
     (auto dest: NextRecord_pendingCount [OF sym])

definition Length :: "filesys \<Rightarrow> ContentReader \<Rightarrow> (nat \<times> error option) \<times> ContentReader" where
  "Length fs cr =
     (if empty cr then ((0, None), cr)
      else if length' cr = 0 then
        (case GetError (Reset (lengthLoop fs cr)) of
           (Some e, cr1) \<Rightarrow> ((0, Some e), cr1)
         | (None, cr1) \<Rightarrow> ((length' cr1, None), cr1))
      else ((length' cr, None), cr))"

declare lengthLoop.simps [simp del]

text \<open>A full iteration: \<^verbatim>\<open>NextRecord\<close> until it fails, with the values received.\<close>

function drain :: "(json \<Rightarrow> error + 'a) \<Rightarrow> filesys \<Rightarrow> ContentReader \<Rightarrow> 'a list \<times> ContentReader" where
  "drain unmarshal fs cr =
     (case NextRecord unmarshal fs cr of
        (Inl e, cr1) \<Rightarrow> ([], cr1)
      | (Inr v, cr1) \<Rightarrow> (case drain unmarshal fs cr1 of (vs, cr2) \<Rightarrow> (v # vs, cr2)))"
  by pat_completeness auto
termination
  by (relation "measure (\<lambda>(unmarshal, fs, cr). pendingCount fs cr)")
     (auto dest: NextRecord_pendingCount [OF sym])

declare drain.simps [simp del]

text \<open>
  What the producer of a reader over the paths \<open>ps\<close> and the key \<open>key\<close> sends and sinks on
  the disk \<open>fs\<close>, and the state of a reader that no call has touched yet.
\<close>

definition blank :: "string \<Rightarrow> ContentReader" where
  "blank key = \<lparr>filesPaths = [], arrayKey = key, dataChannel = [], errorsQueue = [],
                once = True, length' = 0, empty = False\<rparr>"

definition produced :: "filesys \<Rightarrow> string list \<Rightarrow> string \<Rightarrow> gomap list" where
  "produced fs ps key = dataChannel (run fs ps (blank key))"

definition sunk :: "filesys \<Rightarrow> string list \<Rightarrow> string \<Rightarrow> error list" where
  "sunk fs ps key = errorsQueue (run fs ps (blank key))"

definition unread :: "ContentReader \<Rightarrow> bool" where
  "unread cr \<longleftrightarrow> \<not> empty cr \<and> \<not> once cr \<and> dataChannel cr = [] \<and> errorsQueue cr = []
     \<and> length' cr = 0"

lemma readElements_append_ex:
  "\<exists>items errs. \<forall>cr. dataChannel (readElements dec cr) = dataChannel cr @ items
      \<and> errorsQueue (readElements dec cr) = errorsQueue cr @ errs"
proof (induction "length (buf dec)" arbitrary: dec rule: less_induct)
  case less
  show ?case
  proof (cases "More dec")
    case False
    then have "\<forall>cr. dataChannel (readElements dec cr) = dataChannel cr @ []
        \<and> errorsQueue (readElements dec cr) = errorsQueue cr @ []"
      by (simp add: readElements.simps [of dec])
    then show ?thesis by blast
  next
    case True
    obtain r dec1 where d: "Decode unmarshal_map dec = (r, dec1)"
      by (cases "Decode unmarshal_map dec")
    show ?thesis
    proof (cases r)
      case (Inl e)
      with True d have "\<forall>cr. dataChannel (readElements dec cr) = dataChannel cr @ []
          \<and> errorsQueue (readElements dec cr) = errorsQueue cr @ [e]"
        by (simp add: readElements.simps [of dec] AddError_def)
      then show ?thesis by blast
    next
      case (Inr item)
      with d have "length (buf dec1) < length (buf dec)"
        by (auto dest: Decode_shorter)
      from less [OF this] obtain items errs where
        ih: "\<And>cr. dataChannel (readElements dec1 cr) = dataChannel cr @ items
            \<and> errorsQueue (readElements dec1 cr) = errorsQueue cr @ errs"
        by blast
      from True d Inr have "\<forall>cr. dataChannel (readElements dec cr) = dataChannel cr @ (item # items)
          \<and> errorsQueue (readElements dec cr) = errorsQueue cr @ errs"
        by (simp add: readElements.simps [of dec] ih)
      then show ?thesis by blast
    qed
  qed
qed

lemma readSingleFile_append_ex:
  "\<exists>items errs. \<forall>cr. arrayKey cr = key \<longrightarrow>
      dataChannel (readSingleFile fs p cr) = dataChannel cr @ items
      \<and> errorsQueue (readSingleFile fs p cr) = errorsQueue cr @ errs"
proof (cases "readFile fs p")
  case None
  then have "\<forall>cr. arrayKey cr = key \<longrightarrow>
      dataChannel (readSingleFile fs p cr) = dataChannel cr @ []
      \<and> errorsQueue (readSingleFile fs p cr) = errorsQueue cr @ [OpenError p]"
    by (simp add: readSingleFile_def AddError_def)
  then show ?thesis by blast
next
  case (Some content)
  obtain r dec where f: "findDecoderTargetPosition (NewDecoder content) key True = (r, dec)"
    by (cases "findDecoderTargetPosition (NewDecoder content) key True")
  show ?thesis
  proof (cases r)
    case None
    from readElements_append_ex [of dec] obtain items errs where
      "\<And>cr. dataChannel (readElements dec cr) = dataChannel cr @ items
          \<and> errorsQueue (readElements dec cr) = errorsQueue cr @ errs"
      by blast
    with Some f None have "\<forall>cr. arrayKey cr = key \<longrightarrow>
        dataChannel (readSingleFile fs p cr) = dataChannel cr @ items
        \<and> errorsQueue (readSingleFile fs p cr) = errorsQueue cr @ errs"
      by (simp add: readSingleFile_def)
    then show ?thesis by blast
  next
    case (Some e)
    with \<open>readFile fs p = Some content\<close> f have "\<forall>cr. arrayKey cr = key \<longrightarrow>
        dataChannel (readSingleFile fs p cr) = dataChannel cr @ []
        \<and> errorsQueue (readSingleFile fs p cr)
            = errorsQueue cr @ [if e = EOF then NotFound (key @ '' not found'') else e]"
      by (simp add: readSingleFile_def AddError_def)
    then show ?thesis by blast
  qed
qed

lemma run_append_ex:
  "\<exists>items errs. \<forall>cr. arrayKey cr = key \<longrightarrow>
      dataChannel (run fs ps cr) = dataChannel cr @ items
      \<and> errorsQueue (run fs ps cr) = errorsQueue cr @ errs"
proof (induction ps)
  case Nil
  have "\<forall>cr. arrayKey cr = key \<longrightarrow> dataChannel (run fs [] cr) = dataChannel cr @ []
      \<and> errorsQueue (run fs [] cr) = errorsQueue cr @ []"
    by simp
  then show ?case by blast
next
  case (Cons p ps)
  from readSingleFile_append_ex [of key fs p] obtain items1 errs1 where
    one: "\<And>cr. arrayKey cr = key \<Longrightarrow>
        dataChannel (readSingleFile fs p cr) = dataChannel cr @ items1
        \<and> errorsQueue (readSingleFile fs p cr) = errorsQueue cr @ errs1"
    by blast
  from Cons obtain items2 errs2 where
    rest: "\<And>cr. arrayKey cr = key \<Longrightarrow>
        dataChannel (run fs ps cr) = dataChannel cr @ items2
        \<and> errorsQueue (run fs ps cr) = errorsQueue cr @ errs2"
    by blast
  have "\<forall>cr. arrayKey cr = key \<longrightarrow>
      dataChannel (run fs (p # ps) cr) = dataChannel cr @ (items1 @ items2)
      \<and> errorsQueue (run fs (p # ps) cr) = errorsQueue cr @ (errs1 @ errs2)"
    by (simp add: one rest readSingleFile_frame)
  then show ?case by blast
qed

lemma run_append:
  "dataChannel (run fs ps cr) = dataChannel cr @ produced fs ps (arrayKey cr)"
  "errorsQueue (run fs ps cr) = errorsQueue cr @ sunk fs ps (arrayKey cr)"
proof -
  from run_append_ex [of "arrayKey cr" fs ps] obtain items errs where
    a: "\<And>c. arrayKey c = arrayKey cr \<Longrightarrow> dataChannel (run fs ps c) = dataChannel c @ items
        \<and> errorsQueue (run fs ps c) = errorsQueue c @ errs"
    by blast
  have "produced fs ps (arrayKey cr) = items" "sunk fs ps (arrayKey cr) = errs"
    using a [of "blank (arrayKey cr)"] by (simp_all add: produced_def sunk_def blank_def)
  with a [of cr] show "dataChannel (run fs ps cr) = dataChannel cr @ produced fs ps (arrayKey cr)"
    "errorsQueue (run fs ps cr) = errorsQueue cr @ sunk fs ps (arrayKey cr)"
    by simp_all
qed

text \<open>The producer's run, field by field.\<close>

lemma run_eq:
  "run fs ps cr = cr\<lparr>dataChannel := dataChannel cr @ produced fs ps (arrayKey cr),
                     errorsQueue := errorsQueue cr @ sunk fs ps (arrayKey cr)\<rparr>"
  by (rule ContentReader.equality) (simp_all add: run_append run_frame)

lemma NextRecord_unfired:
  "\<not> empty cr \<Longrightarrow> \<not> once cr \<Longrightarrow>
   NextRecord um fs cr =
   NextRecord um fs1
     (cr\<lparr>once := True, length' := 0,
         dataChannel := dataChannel cr @ produced fs (filesPaths cr) (arrayKey cr),
         errorsQueue := errorsQueue cr @ sunk fs (filesPaths cr) (arrayKey cr)\<rparr>)"
  by (simp add: NextRecord_def run_eq)

lemma lengthLoop_fired:
  "once cr \<Longrightarrow> \<not> empty cr \<Longrightarrow>
   lengthLoop fs cr = cr\<lparr>dataChannel := [], length' := length' cr + length (dataChannel cr)\<rparr>"
proof (induction "dataChannel cr" arbitrary: cr)
  case Nil
  then show ?case
    by (simp add: lengthLoop.simps [of fs cr] NextRecord_def Nil.hyps [symmetric])
next
  case (Cons rec rest)
  let ?cr1 = "cr\<lparr>dataChannel := rest, length' := length' cr + 1\<rparr>"
  have n: "NextRecord unmarshal_any fs cr = (Inr (json_of_gomap rec), ?cr1)"
    using Cons.prems Cons.hyps(2) [symmetric]
    by (simp add: NextRecord_def ConvertToStruct_def unmarshal_any_def)
  have "lengthLoop fs ?cr1 = ?cr1\<lparr>dataChannel := [], length' := length' ?cr1 + length (dataChannel ?cr1)\<rparr>"
    using Cons.prems by (intro Cons.hyps(1)) simp_all
  with n show ?case
    by (simp add: lengthLoop.simps [of fs cr] Cons.hyps(2) [symmetric])
qed

lemma drain_fired:
  "once cr \<Longrightarrow> \<not> empty cr \<Longrightarrow>
   drain unmarshal_any fs cr =
     (map json_of_gomap (dataChannel cr),
      cr\<lparr>dataChannel := [], length' := length' cr + length (dataChannel cr)\<rparr>)"
proof (induction "dataChannel cr" arbitrary: cr)
  case Nil
  then show ?case
    by (simp add: drain.simps [of _ fs cr] NextRecord_def Nil.hyps [symmetric])
next
  case (Cons rec rest)
  let ?cr1 = "cr\<lparr>dataChannel := rest, length' := length' cr + 1\<rparr>"
  have n: "NextRecord unmarshal_any fs cr = (Inr (json_of_gomap rec), ?cr1)"
    using Cons.prems Cons.hyps(2) [symmetric]
    by (simp add: NextRecord_def ConvertToStruct_def unmarshal_any_def)
  have "drain unmarshal_any fs ?cr1 =
      (map json_of_gomap (dataChannel ?cr1),
       ?cr1\<lparr>dataChannel := [], length' := length' ?cr1 + length (dataChannel ?cr1)\<rparr>)"
    using Cons.prems by (intro Cons.hyps(1)) simp_all
  with n show ?case
    by (simp add: drain.simps [of _ fs cr] Cons.hyps(2) [symmetric])
qed

lemma lengthLoop_unread:
  assumes "unread cr"
  shows "lengthLoop fs cr =
     cr\<lparr>once := True, dataChannel := [],
        length' := length (produced fs (filesPaths cr) (arrayKey cr)),
        errorsQueue := sunk fs (filesPaths cr) (arrayKey cr)\<rparr>"
proof -
  let ?f = "cr\<lparr>once := True, length' := 0,
         dataChannel := dataChannel cr @ produced fs (filesPaths cr) (arrayKey cr),
         errorsQueue := errorsQueue cr @ sunk fs (filesPaths cr) (arrayKey cr)\<rparr>"
  from assms have u: "\<not> empty cr" "\<not> once cr" "dataChannel cr = []" "errorsQueue cr = []"
    by (simp_all add: unread_def)
  have "lengthLoop fs cr = lengthLoop fs ?f"
    by (simp add: lengthLoop.simps [of fs cr] lengthLoop.simps [of fs ?f]
        NextRecord_unfired [OF u(1,2), of _ fs fs])
  also have "\<dots> = ?f\<lparr>dataChannel := [], length' := length' ?f + length (dataChannel ?f)\<rparr>"
    using u by (intro lengthLoop_fired) simp_all
  finally show ?thesis using u by simp
qed

lemma drain_unread:
  assumes "\<not> empty cr" "\<not> once cr" "dataChannel cr = []"
  shows "fst (drain unmarshal_any fs cr)
     = map json_of_gomap (produced fs (filesPaths cr) (arrayKey cr))"
proof -
  let ?f = "cr\<lparr>once := True, length' := 0,
         dataChannel := dataChannel cr @ produced fs (filesPaths cr) (arrayKey cr),
         errorsQueue := errorsQueue cr @ sunk fs (filesPaths cr) (arrayKey cr)\<rparr>"
  have "drain unmarshal_any fs cr = drain unmarshal_any fs ?f"
    by (simp add: drain.simps [of _ fs cr] drain.simps [of _ fs ?f]
        NextRecord_unfired [OF assms(1,2), of _ fs fs])
  also have "fst \<dots> = map json_of_gomap (dataChannel ?f)"
    using assms by (subst drain_fired) simp_all
  finally show ?thesis using assms by simp
qed

section \<open>The writer\<close>

text \<open>The text of a JSON value, as lexemes.\<close>

fun sep_commas :: "lexeme list list \<Rightarrow> lexeme list" where
  "sep_commas [] = []"
| "sep_commas [x] = x"
| "sep_commas (x # y # ys) = x @ Comma # sep_commas (y # ys)"

fun lex_json :: "json \<Rightarrow> lexeme list" where
  "lex_json JNull = [LNull]"
| "lex_json (JBool b) = [LBool b]"
| "lex_json (JNum n) = [LNum n]"
| "lex_json (JStr s) = [LStr s]"
| "lex_json (JArr xs) = LBrack # sep_commas (map lex_json xs) @ [RBrack]"
| "lex_json (JObj kvs) =
     LBrace # sep_commas (map (\<lambda>kv. LStr (fst kv) # Colon # lex_json (snd kv)) kvs) @ [RBrace]"

text \<open>
  \<^verbatim>\<open>os.CreateTemp\<close> gives a path that names no file yet; which one is its own choice.
  Here it is a path longer than every path on the disk.
\<close>

definition freshPath :: "filesys \<Rightarrow> string" where
  "freshPath fs = replicate (Suc (foldr max (map (\<lambda>e. length (fst e)) (files fs)) 0)) CHR ''t''"

definition createFile :: "string \<Rightarrow> lexeme list \<Rightarrow> filesys \<Rightarrow> filesys" where
  "createFile p content fs = fs\<lparr>files := AList.update p content (files fs)\<rparr>"

definition appendFile :: "string \<Rightarrow> lexeme list \<Rightarrow> filesys \<Rightarrow> filesys" where
  "appendFile p ls fs = fs\<lparr>files := AList.map_entry p (\<lambda>c. c @ ls) (files fs)\<rparr>"

text \<open>
  Modelled from the spec: \<^verbatim>\<open>ContentWriter\<close> is not among the sources. By the spec a
  writer is a target file path, an array key, an emitter positioned inside the array and
  a closed flag. Opening creates a temporary file and writes \<^verbatim>\<open>{"<arrayKey>":[\<close>; writing
  serialises the record and appends it, with a leading comma on all but the first;
  closing writes \<^verbatim>\<open>]}\<close>, and a second close does nothing. Every caller here opens with
  \<^verbatim>\<open>isArray = true\<close> and \<^verbatim>\<open>isCompressed = false\<close>. A value of type \<open>json\<close> always
  serialises, so no serialisation error is left for \<^verbatim>\<open>Close\<close> to return.
\<close>

record ContentWriter =
  outputFile :: string
  cwArrayKey :: string
  isFirst :: bool
  closed :: bool

definition NewContentWriter :: "string \<Rightarrow> filesys \<Rightarrow> (error + ContentWriter) \<times> filesys" where
  "NewContentWriter key fs =
     (if \<not> tmpOk fs then (Inl TempFileError, fs)
      else (Inr \<lparr>outputFile = freshPath fs, cwArrayKey = key, isFirst = True, closed = False\<rparr>,
            createFile (freshPath fs) [LBrace, LStr key, Colon, LBrack] fs))"

definition Write :: "json \<Rightarrow> ContentWriter \<Rightarrow> filesys \<Rightarrow> ContentWriter \<times> filesys" where
  "Write v cw fs =
     (if closed cw then (cw, fs)
      else (cw\<lparr>isFirst := False\<rparr>,
            appendFile (outputFile cw) ((if isFirst cw then [] else [Comma]) @ lex_json v) fs))"

definition CloseWriter :: "ContentWriter \<Rightarrow> filesys \<Rightarrow> error option \<times> ContentWriter \<times> filesys" where
  "CloseWriter cw fs =
     (if closed cw then (None, cw, fs)
      else (None, cw\<lparr>closed := True\<rparr>, appendFile (outputFile cw) [RBrack, RBrace] fs))"

definition GetFilePath :: "ContentWriter \<Rightarrow> string" where
  "GetFilePath cw = outputFile cw"

definition GetArrayKey :: "ContentWriter \<Rightarrow> string" where
  "GetArrayKey cw = cwArrayKey cw"

text \<open>\<^verbatim>\<open>errors.Join\<close> of two errors, either of which may be \<^verbatim>\<open>nil\<close>.\<close>

definition errorsJoin :: "error option \<Rightarrow> error option \<Rightarrow> error option" where
  "errorsJoin a b =
     (case a of
        None \<Rightarrow> b
      | Some e \<Rightarrow> (case b of None \<Rightarrow> Some e | Some e' \<Rightarrow> Some (Joined e e')))"

subsection \<open>Reading back what was written\<close>

definition after_value :: "json \<Rightarrow> frame list \<Rightarrow> lexeme list \<Rightarrow> error + (json \<times> lexeme list)" where
  "after_value v fs rest =
     (case push_value v fs of
        None \<Rightarrow> Inl SyntaxError
      | Some (Done w) \<Rightarrow> Inr (w, rest)
      | Some (Cont fs') \<Rightarrow> scan PAfter fs' rest)"

definition reads_back :: "json \<Rightarrow> bool" where
  "reads_back v \<longleftrightarrow>
     (\<forall>fs rest. scan PValue fs (lex_json v @ rest) = after_value v fs rest
        \<and> scan PValueOrEnd fs (lex_json v @ rest) = after_value v fs rest)"

lemma scan_elements:
  "(\<forall>x \<in> set xs. reads_back x) \<Longrightarrow> xs \<noteq> [] \<Longrightarrow>
   scan PValue (FArr acc # fs) (sep_commas (map lex_json xs) @ RBrack # rest)
       = after_value (JArr (rev acc @ xs)) fs rest
   \<and> scan PValueOrEnd (FArr acc # fs) (sep_commas (map lex_json xs) @ RBrack # rest)
       = after_value (JArr (rev acc @ xs)) fs rest"
proof (induction xs arbitrary: acc)
  case Nil
  then show ?case by simp
next
  case (Cons x xs)
  have x: "reads_back x" using Cons.prems(1) by simp
  have step: "scan st (FArr acc # fs) (lex_json x @ r) = scan PAfter (FArr (x # acc) # fs) r"
    if "st = PValue \<or> st = PValueOrEnd" for st r
    using x that by (auto simp: reads_back_def after_value_def)
  have tail: "scan PAfter (FArr (x # acc) # fs) (if xs = [] then RBrack # rest
          else Comma # sep_commas (map lex_json xs) @ RBrack # rest)
      = after_value (JArr (rev acc @ x # xs)) fs rest"
  proof (cases "xs = []")
    case True
    then show ?thesis by (simp add: after_value_def)
  next
    case False
    with Cons.IH [of "x # acc"] Cons.prems(1) show ?thesis by simp
  qed
  have shape: "sep_commas (map lex_json (x # xs)) @ RBrack # rest
      = lex_json x @ (if xs = [] then RBrack # rest
          else Comma # sep_commas (map lex_json xs) @ RBrack # rest)"
    by (cases xs) simp_all
  show ?case unfolding shape by (simp only: step [of PValue] step [of PValueOrEnd] tail simp_thms)
qed

lemma scan_members:
  "(\<forall>kv \<in> set kvs. reads_back (snd kv)) \<Longrightarrow> kvs \<noteq> [] \<Longrightarrow>
   scan PKey (FObj acc # fs)
           (sep_commas (map (\<lambda>kv. LStr (fst kv) # Colon # lex_json (snd kv)) kvs) @ RBrace # rest)
       = after_value (JObj (rev acc @ kvs)) fs rest
   \<and> scan PKeyOrEnd (FObj acc # fs)
           (sep_commas (map (\<lambda>kv. LStr (fst kv) # Colon # lex_json (snd kv)) kvs) @ RBrace # rest)
       = after_value (JObj (rev acc @ kvs)) fs rest"
proof (induction kvs arbitrary: acc)
  case Nil
  then show ?case by simp
next
  case (Cons kv kvs)
  let ?m = "\<lambda>kv. LStr (fst kv) # Colon # lex_json (snd kv)"
  have v: "reads_back (snd kv)" using Cons.prems(1) by simp
  have step: "scan st (FObj acc # fs) (?m kv @ r) = scan PAfter (FObj (kv # acc) # fs) r"
    if "st = PKey \<or> st = PKeyOrEnd" for st r
    using v that by (cases kv) (auto simp: reads_back_def after_value_def)
  have tail: "scan PAfter (FObj (kv # acc) # fs) (if kvs = [] then RBrace # rest
          else Comma # sep_commas (map ?m kvs) @ RBrace # rest)
      = after_value (JObj (rev acc @ kv # kvs)) fs rest"
  proof (cases "kvs = []")
    case True
    then show ?thesis by (simp add: after_value_def)
  next
    case False
    with Cons.IH [of "kv # acc"] Cons.prems(1) show ?thesis by simp
  qed
  have shape: "sep_commas (map ?m (kv # kvs)) @ RBrace # rest
      = ?m kv @ (if kvs = [] then RBrace # rest
          else Comma # sep_commas (map ?m kvs) @ RBrace # rest)"
    by (cases kvs) simp_all
  show ?case unfolding shape by (simp only: step [of PKey] step [of PKeyOrEnd] tail simp_thms)
qed

lemma reads_back_all: "reads_back v"
proof (induction v)
  case JNull
  show ?case by (simp add: reads_back_def after_value_def)
next
  case (JBool b)
  show ?case by (simp add: reads_back_def after_value_def)
next
  case (JNum n)
  show ?case by (simp add: reads_back_def after_value_def)
next
  case (JStr s)
  show ?case by (simp add: reads_back_def after_value_def)
next
  case (JArr xs)
  show ?case
  proof (cases "xs = []")
    case True
    then show ?thesis by (simp add: reads_back_def after_value_def)
  next
    case False
    from JArr have "\<forall>x \<in> set xs. reads_back x" by blast
    from scan_elements [OF this False, of "[]"] show ?thesis
      by (simp add: reads_back_def)
  qed
next
  case (JObj kvs)
  have m: "\<forall>kv \<in> set kvs. reads_back (snd kv)"
    using JObj by (auto simp: snds.simps)
  show ?case
  proof (cases "kvs = []")
    case True
    then show ?thesis by (simp add: reads_back_def after_value_def)
  next
    case False
    from scan_members [OF m False, of "[]"] show ?thesis
      by (simp add: reads_back_def)
  qed
qed

text \<open>The text of a closed container file: \<^verbatim>\<open>{"<arrayKey>":[<record>,...]}\<close>.\<close>

definition container :: "string \<Rightarrow> json list \<Rightarrow> lexeme list" where
  "container key vs = [LBrace, LStr key, Colon, LBrack] @ sep_commas (map lex_json vs) @ [RBrack, RBrace]"

lemma lex_json_Cons: "\<exists>c cs. lex_json v = c # cs \<and> c \<noteq> RBrack \<and> c \<noteq> RBrace"
  by (cases v) simp_all

lemma readValue_lex: "readValue (lex_json v @ rest) = Inr (v, rest)"
proof -
  from lex_json_Cons [of v] have "lex_json v @ rest \<noteq> []" by auto
  moreover have "scan PValue [] (lex_json v @ rest) = after_value v [] rest"
    using reads_back_all [of v] by (simp add: reads_back_def)
  ultimately show ?thesis by (simp add: readValue_def after_value_def)
qed

lemma Decode_first:
  "tokenState dec = ArrayStart \<Longrightarrow> buf dec = lex_json v @ rest \<Longrightarrow>
   Decode um dec = (um v, dec\<lparr>buf := rest, tokenState := ArrayComma\<rparr>)"
  by (simp add: Decode_def tokenPrepareForDecode_def tokenValueAllowed_def tokenValueEnd_def
      readValue_lex)

lemma Decode_next:
  "tokenState dec = ArrayComma \<Longrightarrow> buf dec = Comma # lex_json v @ rest \<Longrightarrow>
   Decode um dec = (um v, dec\<lparr>buf := rest, tokenState := ArrayComma\<rparr>)"
  by (simp add: Decode_def tokenPrepareForDecode_def tokenValueAllowed_def tokenValueEnd_def
      readValue_lex)

lemma unmarshal_map_json_of_gomap: "unmarshal_map (json_of_gomap m) = Inr m"
  by (cases m) (simp_all add: json_of_gomap_def)

lemma sep_commas_Cons: "sep_commas (x # xs) = x @ concat (map (\<lambda>y. Comma # y) xs)"
  by (induction xs arbitrary: x) simp_all

lemma readElements_rest:
  "tokenState dec = ArrayComma \<Longrightarrow>
   buf dec = concat (map (\<lambda>y. Comma # y) (map lex_json (map json_of_gomap ms))) @ RBrack # rest \<Longrightarrow>
   dataChannel (readElements dec cr) = dataChannel cr @ ms
   \<and> errorsQueue (readElements dec cr) = errorsQueue cr"
proof (induction ms arbitrary: dec cr)
  case Nil
  then show ?case by (simp add: readElements.simps [of dec] More_def)
next
  case (Cons m ms)
  let ?rest = "concat (map (\<lambda>y. Comma # y) (map lex_json (map json_of_gomap ms))) @ RBrack # rest"
  let ?dec1 = "dec\<lparr>buf := ?rest, tokenState := ArrayComma\<rparr>"
  have b: "buf dec = Comma # lex_json (json_of_gomap m) @ ?rest"
    using Cons.prems(2) by simp
  have d: "Decode unmarshal_map dec = (Inr m, ?dec1)"
    using Decode_next [OF Cons.prems(1) b, of unmarshal_map]
    by (simp add: unmarshal_map_json_of_gomap)
  have m: "More dec" using b by (simp add: More_def)
  have "dataChannel (readElements ?dec1 (cr\<lparr>dataChannel := dataChannel cr @ [m]\<rparr>))
      = dataChannel (cr\<lparr>dataChannel := dataChannel cr @ [m]\<rparr>) @ ms
    \<and> errorsQueue (readElements ?dec1 (cr\<lparr>dataChannel := dataChannel cr @ [m]\<rparr>))
      = errorsQueue (cr\<lparr>dataChannel := dataChannel cr @ [m]\<rparr>)"
    by (rule Cons.IH) simp_all
  with d m show ?case by (simp add: readElements.simps [of dec])
qed

lemma readElements_written:
  assumes "tokenState dec = ArrayStart"
    and "buf dec = sep_commas (map lex_json (map json_of_gomap ms)) @ RBrack # rest"
  shows "dataChannel (readElements dec cr) = dataChannel cr @ ms
   \<and> errorsQueue (readElements dec cr) = errorsQueue cr"
proof (cases ms)
  case Nil
  with assms show ?thesis by (simp add: readElements.simps [of dec] More_def)
next
  case (Cons m ms')
  let ?rest = "concat (map (\<lambda>y. Comma # y) (map lex_json (map json_of_gomap ms'))) @ RBrack # rest"
  let ?dec1 = "dec\<lparr>buf := ?rest, tokenState := ArrayComma\<rparr>"
  have b: "buf dec = lex_json (json_of_gomap m) @ ?rest"
    using assms(2) Cons by (simp add: sep_commas_Cons)
  have d: "Decode unmarshal_map dec = (Inr m, ?dec1)"
    using Decode_first [OF assms(1) b, of unmarshal_map]
    by (simp add: unmarshal_map_json_of_gomap)
  obtain c cs where "lex_json (json_of_gomap m) = c # cs" "c \<noteq> RBrack" "c \<noteq> RBrace"
    using lex_json_Cons by blast
  with b have m: "More dec" by (simp add: More_def)
  have "dataChannel (readElements ?dec1 (cr\<lparr>dataChannel := dataChannel cr @ [m]\<rparr>))
      = dataChannel (cr\<lparr>dataChannel := dataChannel cr @ [m]\<rparr>) @ ms'
    \<and> errorsQueue (readElements ?dec1 (cr\<lparr>dataChannel := dataChannel cr @ [m]\<rparr>))
      = errorsQueue (cr\<lparr>dataChannel := dataChannel cr @ [m]\<rparr>)"
    by (rule readElements_rest) simp_all
  with d m Cons show ?thesis by (simp add: readElements.simps [of dec])
qed

lemma position_container:
  "findDecoderTargetPosition (NewDecoder (container key vs)) key True
   = (None, \<lparr>buf = sep_commas (map lex_json vs) @ [RBrack, RBrace], tokenState = ArrayStart,
             tokenStack = [TopValue, ObjectValue]\<rparr>)"
  by (simp add: container_def decoder_eval)

lemma readSingleFile_container:
  assumes "readFile fs p = Some (container (arrayKey cr) (map json_of_gomap ms))"
  shows "dataChannel (readSingleFile fs p cr) = dataChannel cr @ ms"
    and "errorsQueue (readSingleFile fs p cr) = errorsQueue cr"
  using readElements_written [of "\<lparr>buf = sep_commas (map lex_json (map json_of_gomap ms)) @ [RBrack, RBrace],
      tokenState = ArrayStart, tokenStack = [TopValue, ObjectValue]\<rparr>" ms "[RBrace]" cr]
  by (simp_all add: readSingleFile_def assms position_container)

lemma produced_container:
  assumes "readFile fs p = Some (container key (map json_of_gomap ms))"
  shows "produced fs [p] key = ms" and "sunk fs [p] key = []"
  using readSingleFile_container [of fs p "blank key" ms] assms
  by (simp_all add: produced_def sunk_def, simp_all add: blank_def)

section \<open>Merging readers one after the other\<close>

text \<open>
  A function that receives readers receives pointers to them (\<^verbatim>\<open>[]*ContentReader\<close>), and
  a list may name one reader more than once. The readers live in a store, from addresses to
  reader objects; a pointer is an address, or \<open>None\<close> for \<^verbatim>\<open>nil\<close>. A loop over one
  reader is a function of that reader; a loop over a list of pointers takes the reader at
  an address from the store and puts it back as the calls have left it. Calling a method
  of a \<^verbatim>\<open>nil\<close> reader is a nil dereference, returned here as the error \<open>GoPanic\<close>.
\<close>

type_synonym store = "nat \<Rightarrow> ContentReader"

function mergeDrain ::
  "filesys \<Rightarrow> ContentWriter \<Rightarrow> ContentReader \<Rightarrow> filesys \<times> ContentWriter \<times> ContentReader" where
  "mergeDrain fs cw cr =
     (case NextRecord unmarshal_any fs cr of
        (Inl e, cr1) \<Rightarrow> (fs, cw, cr1)
      | (Inr item, cr1) \<Rightarrow>
          (case Write item cw fs of (cw1, fs1) \<Rightarrow> mergeDrain fs1 cw1 cr1))"
  by pat_completeness auto
termination
  by (relation "measure (\<lambda>(fs, cw, cr). pendingCount fs cr)")
     (auto dest: NextRecord_pendingCount [OF sym])

declare mergeDrain.simps [simp del]

fun mergeLoop ::
  "nat option list \<Rightarrow> store \<Rightarrow> filesys \<Rightarrow> ContentWriter
   \<Rightarrow> error option \<times> store \<times> filesys \<times> ContentWriter" where
  "mergeLoop [] st fs cw = (None, st, fs, cw)"
| "mergeLoop (None # rest) st fs cw = (Some GoPanic, st, fs, cw)"
| "mergeLoop (Some a # rest) st fs cw =
     (case mergeDrain fs cw (st a) of
        (fs1, cw1, cr1) \<Rightarrow>
          (case GetError cr1 of
             (Some e, cr2) \<Rightarrow> (Some e, st(a := cr2), fs1, cw1)
           | (None, cr2) \<Rightarrow> mergeLoop rest (st(a := cr2)) fs1 cw1))"

text \<open>
  \<^verbatim>\<open>MergeReaders\<close>: the returned reader (a new object, given by its value) and error, the
  disk, and the store with the input readers as the call leaves them. The deferred function
  joins the error of closing the writer.
\<close>

definition MergeReaders ::
  "nat option list \<Rightarrow> string \<Rightarrow> store \<Rightarrow> filesys
   \<Rightarrow> (ContentReader option \<times> error option) \<times> filesys \<times> store" where
  "MergeReaders arr key st fs =
     (case NewContentWriter key fs of
        (Inl e, fs1) \<Rightarrow> ((None, Some e), fs1, st)
      | (Inr cw, fs1) \<Rightarrow>
          (case mergeLoop arr st fs1 cw of
             (Some e, st2, fs2, cw2) \<Rightarrow>
               (case CloseWriter cw2 fs2 of
                  (ce, cw3, fs3) \<Rightarrow> ((None, errorsJoin (Some e) ce), fs3, st2))
           | (None, st2, fs2, cw2) \<Rightarrow>
               (case CloseWriter cw2 fs2 of
                  (ce, cw3, fs3) \<Rightarrow>
                    ((Some (NewContentReader (GetFilePath cw2) key), errorsJoin None ce),
                     fs3, st2))))"

text \<open>
  The records a full iteration of a reader yields on a disk, and a writer that stands
  inside the array of its file after the values \<open>vs\<close>.
\<close>

definition pending :: "filesys \<Rightarrow> ContentReader \<Rightarrow> gomap list" where
  "pending fs cr =
     (if empty cr then []
      else if once cr then dataChannel cr
      else dataChannel cr @ produced fs (filesPaths cr) (arrayKey cr))"

definition writing :: "ContentWriter \<Rightarrow> filesys \<Rightarrow> string \<Rightarrow> json list \<Rightarrow> bool" where
  "writing cw fs key vs \<longleftrightarrow>
     \<not> closed cw \<and> outputFile cw \<noteq> [] \<and> cwArrayKey cw = key \<and> (isFirst cw \<longleftrightarrow> vs = [])
     \<and> readFile fs (outputFile cw)
         = Some ([LBrace, LStr key, Colon, LBrack] @ sep_commas (map lex_json vs))"

definition sameElsewhere :: "string \<Rightarrow> filesys \<Rightarrow> filesys \<Rightarrow> bool" where
  "sameElsewhere p fs fs' \<longleftrightarrow>
     (\<forall>q. q \<noteq> p \<longrightarrow> readFile fs' q = readFile fs q)
     \<and> busy fs' = busy fs \<and> removeCalls fs' = removeCalls fs \<and> tmpOk fs' = tmpOk fs"

lemma freshPath_fresh: "readFile fs (freshPath fs) = None" "freshPath fs \<noteq> []"
proof -
  have "length (fst e) \<le> foldr max (map (\<lambda>e. length (fst e)) xs) 0" if "e \<in> set xs"
    for e :: "string \<times> lexeme list" and xs
    using that by (induction xs) auto
  then have "freshPath fs \<notin> fst ` set (files fs)"
    by (fastforce simp: freshPath_def)
  then show "readFile fs (freshPath fs) = None"
    by (simp add: readFile_def map_of_eq_None_iff)
  show "freshPath fs \<noteq> []" by (simp add: freshPath_def)
qed

lemma readFile_createFile:
  "p \<noteq> [] \<Longrightarrow> readFile (createFile p c fs) q = (if q = p then Some c else readFile fs q)"
  by (simp add: readFile_def createFile_def update_conv')

lemma readFile_appendFile:
  "readFile (appendFile p ls fs) q
   = (if q = p then map_option (\<lambda>c. c @ ls) (readFile fs p) else readFile fs q)"
  by (auto simp: readFile_def appendFile_def map_of_map_entry split: option.splits)

lemma createFile_fields:
  "busy (createFile p c fs) = busy fs" "removeCalls (createFile p c fs) = removeCalls fs"
  "tmpOk (createFile p c fs) = tmpOk fs"
  by (simp_all add: createFile_def)

lemma appendFile_fields:
  "busy (appendFile p c fs) = busy fs" "removeCalls (appendFile p c fs) = removeCalls fs"
  "tmpOk (appendFile p c fs) = tmpOk fs"
  by (simp_all add: appendFile_def)

lemma sep_commas_snoc:
  "sep_commas (xs @ [x]) = (if xs = [] then x else sep_commas xs @ Comma # x)"
  by (induction xs rule: sep_commas.induct) simp_all

lemma NewContentWriter_writing:
  "NewContentWriter key fs = (Inr cw, fs1) \<Longrightarrow>
   outputFile cw = freshPath fs \<and> writing cw fs1 key [] \<and> sameElsewhere (freshPath fs) fs fs1"
  by (auto simp: NewContentWriter_def writing_def sameElsewhere_def readFile_createFile
      freshPath_fresh createFile_fields split: if_splits)

lemma Write_writing:
  "writing cw fs key vs \<Longrightarrow> Write v cw fs = (cw1, fs1) \<Longrightarrow>
   outputFile cw1 = outputFile cw \<and> writing cw1 fs1 key (vs @ [v])
   \<and> sameElsewhere (outputFile cw) fs fs1"
  by (auto simp: Write_def writing_def sameElsewhere_def readFile_appendFile sep_commas_snoc
      appendFile_fields split: if_splits)

lemma CloseWriter_writing:
  "writing cw fs key vs \<Longrightarrow> CloseWriter cw fs = (ce, cw1, fs1) \<Longrightarrow>
   ce = None \<and> readFile fs1 (outputFile cw) = Some (container key vs)
   \<and> sameElsewhere (outputFile cw) fs fs1"
  by (auto simp: CloseWriter_def writing_def sameElsewhere_def readFile_appendFile container_def
      appendFile_fields split: if_splits)

lemma sameElsewhere_refl: "sameElsewhere p fs fs"
  by (simp add: sameElsewhere_def)

lemma sameElsewhere_trans:
  "sameElsewhere p fs fs1 \<Longrightarrow> sameElsewhere p fs1 fs2 \<Longrightarrow> sameElsewhere p fs fs2"
  by (simp add: sameElsewhere_def)

lemma run_cong_files:
  "(\<forall>p \<in> set ps. readFile fs' p = readFile fs p) \<Longrightarrow> run fs' ps cr = run fs ps cr"
  by (induction ps arbitrary: cr) (simp_all add: readSingleFile_def)

lemma pending_sameElsewhere:
  "sameElsewhere p fs fs' \<Longrightarrow> p \<notin> set (filesPaths cr) \<Longrightarrow> pending fs' cr = pending fs cr"
proof -
  assume a: "sameElsewhere p fs fs'" "p \<notin> set (filesPaths cr)"
  then have "\<forall>q \<in> set (filesPaths cr). readFile fs' q = readFile fs q"
    by (auto simp: sameElsewhere_def)
  from run_cong_files [OF this] show ?thesis
    by (simp add: pending_def produced_def)
qed

text \<open>The error sink of a reader after a full iteration into generic values.\<close>

definition errorsAfter :: "filesys \<Rightarrow> ContentReader \<Rightarrow> error list" where
  "errorsAfter fs cr =
     (if empty cr \<or> once cr then errorsQueue cr
      else errorsQueue cr @ sunk fs (filesPaths cr) (arrayKey cr))"

lemma NextRecord_fired:
  "\<not> empty cr \<Longrightarrow> once cr \<Longrightarrow>
   NextRecord um fs cr =
     (case dataChannel cr of
        [] \<Rightarrow> (Inl EOF, cr)
      | rec # rest \<Rightarrow>
          (case ConvertToStruct um rec of
             Inl e \<Rightarrow> (Inl e, cr\<lparr>dataChannel := rest, errorsQueue := AddError e (errorsQueue cr)\<rparr>)
           | Inr v \<Rightarrow> (Inr v, cr\<lparr>dataChannel := rest, length' := length' cr + 1\<rparr>)))"
  by (simp add: NextRecord_def)

lemma NextRecord_any_Nil:
  assumes "pending fs cr = []" and "NextRecord unmarshal_any fs cr = (r, cr1)"
  shows "\<exists>e. r = Inl e" and "errorsQueue cr1 = errorsAfter fs cr"
    and "filesPaths cr1 = filesPaths cr" and "pending fs1 cr1 = []"
proof -
  consider (e) "empty cr" | (f) "\<not> empty cr" "once cr" | (u) "\<not> empty cr" "\<not> once cr"
    by blast
  then have "(\<exists>e. r = Inl e) \<and> errorsQueue cr1 = errorsAfter fs cr
      \<and> filesPaths cr1 = filesPaths cr \<and> pending fs1 cr1 = []"
  proof cases
    case e
    with assms show ?thesis
      by (auto simp: NextRecord_def pending_def errorsAfter_def)
  next
    case f
    with assms show ?thesis
      by (auto simp: NextRecord_fired pending_def errorsAfter_def)
  next
    case u
    with assms(1) have p: "dataChannel cr = []" "produced fs (filesPaths cr) (arrayKey cr) = []"
      by (simp_all add: pending_def)
    with u assms(2) show ?thesis
      by (auto simp: NextRecord_unfired [OF u, of _ fs fs] NextRecord_fired pending_def
          errorsAfter_def)
  qed
  then show "\<exists>e. r = Inl e" and "errorsQueue cr1 = errorsAfter fs cr"
    and "filesPaths cr1 = filesPaths cr" and "pending fs1 cr1 = []"
    by simp_all
qed

lemma NextRecord_any_Cons:
  assumes "pending fs cr = m # ms"
  shows "\<exists>cr1. NextRecord unmarshal_any fs cr = (Inr (json_of_gomap m), cr1)
     \<and> pending fs1 cr1 = ms \<and> errorsAfter fs1 cr1 = errorsAfter fs cr
     \<and> filesPaths cr1 = filesPaths cr"
proof -
  from assms have ne: "\<not> empty cr" by (auto simp: pending_def split: if_splits)
  show ?thesis
  proof (cases "once cr")
    case True
    with ne assms show ?thesis
      by (simp add: NextRecord_fired pending_def errorsAfter_def ConvertToStruct_def
          unmarshal_any_def)
  next
    case False
    with ne assms show ?thesis
      by (simp add: NextRecord_unfired [OF ne False, of _ fs fs] NextRecord_fired pending_def
          errorsAfter_def ConvertToStruct_def unmarshal_any_def)
  qed
qed

lemma drain_pending: "fst (drain unmarshal_any fs cr) = map json_of_gomap (pending fs cr)"
proof (induction "pending fs cr" arbitrary: fs cr)
  case Nil
  obtain r cr1 where n: "NextRecord unmarshal_any fs cr = (r, cr1)"
    by (cases "NextRecord unmarshal_any fs cr")
  from NextRecord_any_Nil(1) [OF Nil [symmetric] n] n Nil show ?case
    by (auto simp: drain.simps [of _ fs cr])
next
  case (Cons m ms)
  from NextRecord_any_Cons [OF Cons.hyps(2) [symmetric], of fs] obtain cr1 where
    n: "NextRecord unmarshal_any fs cr = (Inr (json_of_gomap m), cr1)" and p: "pending fs cr1 = ms"
    by blast
  from Cons.hyps(1) [OF p [symmetric]] n p Cons.hyps(2) [symmetric] show ?case
    by (cases "drain unmarshal_any fs cr1") (simp add: drain.simps [of _ fs cr])
qed

lemma mergeDrain_writes:
  assumes "writing cw fs key vs" and "outputFile cw \<notin> set (filesPaths cr)"
    and "mergeDrain fs cw cr = (fs1, cw1, cr1)"
  shows "writing cw1 fs1 key (vs @ map json_of_gomap (pending fs cr))
     \<and> outputFile cw1 = outputFile cw \<and> sameElsewhere (outputFile cw) fs fs1
     \<and> errorsQueue cr1 = errorsAfter fs cr \<and> filesPaths cr1 = filesPaths cr
     \<and> (\<forall>fs'. pending fs' cr1 = [])"
  using assms
proof (induction "pending fs cr" arbitrary: fs cw cr vs)
  case Nil
  obtain r cr0 where n: "NextRecord unmarshal_any fs cr = (r, cr0)"
    by (cases "NextRecord unmarshal_any fs cr")
  from NextRecord_any_Nil [OF Nil(1) [symmetric] n] n Nil show ?case
    by (auto simp: mergeDrain.simps [of fs cw cr] sameElsewhere_refl)
next
  case (Cons m ms)
  obtain cw0 fs0 where w: "Write (json_of_gomap m) cw fs = (cw0, fs0)"
    by (cases "Write (json_of_gomap m) cw fs")
  from NextRecord_any_Cons [OF Cons.hyps(2) [symmetric], of fs0] obtain cr0 where
    n: "NextRecord unmarshal_any fs cr = (Inr (json_of_gomap m), cr0)"
    and p: "pending fs0 cr0 = ms" and e: "errorsAfter fs0 cr0 = errorsAfter fs cr"
    and f: "filesPaths cr0 = filesPaths cr"
    by blast
  from Write_writing [OF Cons.prems(1) w] have
    w1: "writing cw0 fs0 key (vs @ [json_of_gomap m])" and o: "outputFile cw0 = outputFile cw"
    and s: "sameElsewhere (outputFile cw) fs fs0"
    by simp_all
  have md: "mergeDrain fs0 cw0 cr0 = (fs1, cw1, cr1)"
    using Cons.prems(3) n w by (simp add: mergeDrain.simps [of fs cw cr])
  have "outputFile cw0 \<notin> set (filesPaths cr0)"
    using Cons.prems(2) o f by simp
  from Cons.hyps(1) [OF p [symmetric] w1 this md] p e f o s Cons.hyps(2) [symmetric]
  show ?case
    by (auto intro: sameElsewhere_trans)
qed

text \<open>
  The first occurrences of the elements of a list, in their order: a reader named more
  than once in a list is met drained at every place after the first.
\<close>

primrec firsts :: "'a list \<Rightarrow> 'a list" where
  "firsts [] = []"
| "firsts (x # xs) = x # removeAll x (firsts xs)"

lemma set_firsts: "set (firsts xs) = set xs"
  by (induction xs) auto

lemma distinct_firsts: "distinct (firsts xs)"
  by (induction xs) (auto simp: distinct_removeAll)

lemma firsts_distinct: "distinct xs \<Longrightarrow> firsts xs = xs"
  by (induction xs) (auto simp: set_firsts)

lemma concat_map_removeAll: "f x = [] \<Longrightarrow> concat (map f (removeAll x ys)) = concat (map f ys)"
  by (induction ys) auto

lemma pending_GetError: "GetError cr = (e, cr1) \<Longrightarrow> pending fs cr1 = pending fs cr \<and> filesPaths cr1 = filesPaths cr"
  by (auto simp: GetError_def pending_def split: prod.splits)

definition pendingAt :: "filesys \<Rightarrow> store \<Rightarrow> nat option \<Rightarrow> json list" where
  "pendingAt fs st p = (case p of None \<Rightarrow> [] | Some a \<Rightarrow> map json_of_gomap (pending fs (st a)))"

lemma mergeLoop_writes:
  assumes "writing cw fs key vs"
    and "\<forall>a. Some a \<in> set arr \<longrightarrow> outputFile cw \<notin> set (filesPaths (st a))"
    and "mergeLoop arr st fs cw = (None, st2, fs2, cw2)"
  shows "writing cw2 fs2 key (vs @ concat (map (pendingAt fs st) (firsts arr)))
     \<and> outputFile cw2 = outputFile cw \<and> sameElsewhere (outputFile cw) fs fs2
     \<and> None \<notin> set arr
     \<and> (\<forall>a. Some a \<in> set arr \<longrightarrow> (\<forall>fs'. pending fs' (st2 a) = []))
     \<and> (\<forall>a. filesPaths (st2 a) = filesPaths (st a))
     \<and> (\<forall>a. Some a \<notin> set arr \<longrightarrow> st2 a = st a)"
  using assms
proof (induction arr arbitrary: st fs cw vs)
  case Nil
  then show ?case by (simp add: sameElsewhere_refl)
next
  case (Cons p arr)
  from Cons.prems(3) obtain a where p: "p = Some a" by (cases p) auto
  obtain fs1 cw1 cr1 where md: "mergeDrain fs cw (st a) = (fs1, cw1, cr1)"
    by (cases "mergeDrain fs cw (st a)")
  obtain ge cr2 where ge: "GetError cr1 = (ge, cr2)" by (cases "GetError cr1")
  let ?st = "st(a := cr2)"
  from Cons.prems(3) p md ge have
    ml: "mergeLoop arr ?st fs1 cw1 = (None, st2, fs2, cw2)"
    by (cases ge) auto
  from Cons.prems(2) p have nf: "outputFile cw \<notin> set (filesPaths (st a))" by simp
  from mergeDrain_writes [OF Cons.prems(1) nf md] have
    w1: "writing cw1 fs1 key (vs @ map json_of_gomap (pending fs (st a)))"
    and o: "outputFile cw1 = outputFile cw" and s: "sameElsewhere (outputFile cw) fs fs1"
    and f1: "filesPaths cr1 = filesPaths (st a)" and d1: "\<forall>fs'. pending fs' cr1 = []"
    by simp_all
  from pending_GetError [OF ge] f1 d1 have
    f2: "filesPaths cr2 = filesPaths (st a)" and d2: "\<forall>fs'. pending fs' cr2 = []"
    by simp_all
  have fp: "filesPaths (?st b) = filesPaths (st b)" for b
    using f2 by simp
  have nf1: "\<forall>b. Some b \<in> set arr \<longrightarrow> outputFile cw1 \<notin> set (filesPaths (?st b))"
    using Cons.prems(2) o fp by simp
  from Cons.IH [OF w1 nf1 ml] have
    w2: "writing cw2 fs2 key
        ((vs @ map json_of_gomap (pending fs (st a))) @ concat (map (pendingAt fs1 ?st) (firsts arr)))"
    and o2: "outputFile cw2 = outputFile cw1" and s2: "sameElsewhere (outputFile cw1) fs1 fs2"
    and nn: "None \<notin> set arr"
    and dr: "\<forall>b. Some b \<in> set arr \<longrightarrow> (\<forall>fs'. pending fs' (st2 b) = [])"
    and fq: "\<forall>b. filesPaths (st2 b) = filesPaths (?st b)"
    and un: "\<forall>b. Some b \<notin> set arr \<longrightarrow> st2 b = ?st b"
    by blast+
  have z: "pendingAt fs1 ?st (Some a) = []"
    using d2 by (simp add: pendingAt_def)
  have "concat (map (pendingAt fs1 ?st) (firsts arr))
      = concat (map (pendingAt fs1 ?st) (removeAll (Some a) (firsts arr)))"
    by (simp only: concat_map_removeAll [of "pendingAt fs1 ?st" "Some a", OF z])
  also have "map (pendingAt fs1 ?st) (removeAll (Some a) (firsts arr))
      = map (pendingAt fs st) (removeAll (Some a) (firsts arr))"
  proof (rule map_cong [OF refl])
    fix q
    assume "q \<in> set (removeAll (Some a) (firsts arr))"
    then have q: "q \<noteq> Some a" "q \<in> set arr" by (simp_all add: set_firsts)
    show "pendingAt fs1 ?st q = pendingAt fs st q"
    proof (cases q)
      case None
      then show ?thesis by (simp add: pendingAt_def)
    next
      case (Some b)
      with q Cons.prems(2) have "b \<noteq> a" "outputFile cw \<notin> set (filesPaths (st b))" by auto
      with pending_sameElsewhere [OF s] Some show ?thesis by (simp add: pendingAt_def)
    qed
  qed
  finally have c: "concat (map (pendingAt fs1 ?st) (firsts arr))
      = concat (map (pendingAt fs st) (removeAll (Some a) (firsts arr)))" .
  have "writing cw2 fs2 key (vs @ concat (map (pendingAt fs st) (firsts (p # arr))))"
    using w2 c p by (simp add: pendingAt_def)
  moreover have "\<forall>b. Some b \<in> set (p # arr) \<longrightarrow> (\<forall>fs'. pending fs' (st2 b) = [])"
  proof (intro allI impI)
    fix b fs'
    assume b: "Some b \<in> set (p # arr)"
    show "pending fs' (st2 b) = []"
    proof (cases "Some b \<in> set arr")
      case True
      with dr show ?thesis by simp
    next
      case False
      with b p have "b = a" by simp
      with False un d2 show ?thesis by simp
    qed
  qed
  moreover have "\<forall>b. filesPaths (st2 b) = filesPaths (st b)"
    using fq fp by simp
  moreover have "\<forall>b. Some b \<notin> set (p # arr) \<longrightarrow> st2 b = st b"
    using un p by auto
  ultimately show ?case
    using o o2 s s2 nn p by (auto intro: sameElsewhere_trans)
qed

section \<open>Closing a reader\<close>

text \<open>
  \<^verbatim>\<open>RetryExecutor.Execute\<close> of the gofrog library: the handler runs at most
  \<open>MaxRetries + 1\<close> times, and the loop stops at the first run whose handler does not ask
  for a retry. The pause between runs has no counterpart here. \<open>executeLoop n\<close> is the
  loop with \<open>n\<close> rounds left.
\<close>

fun executeLoop ::
  "nat \<Rightarrow> (filesys \<Rightarrow> (bool \<times> error option) \<times> filesys) \<Rightarrow> error option \<Rightarrow> filesys
   \<Rightarrow> error option \<times> filesys" where
  "executeLoop 0 handler err fs =
     ((case err of None \<Rightarrow> Some RetryTimeout | Some e \<Rightarrow> Some e), fs)"
| "executeLoop (Suc n) handler err fs =
     (case handler fs of
        ((shouldRetry, err1), fs1) \<Rightarrow>
          if \<not> shouldRetry then (err1, fs1) else executeLoop n handler err1 fs1)"

definition Execute ::
  "nat \<Rightarrow> (filesys \<Rightarrow> (bool \<times> error option) \<times> filesys) \<Rightarrow> filesys \<Rightarrow> error option \<times> filesys" where
  "Execute maxRetries handler fs = executeLoop (Suc maxRetries) handler None fs"

definition removeFileWithRetry :: "string \<Rightarrow> filesys \<Rightarrow> error option \<times> filesys" where
  "removeFileWithRetry filePath fs =
     (if \<not> fileExists fs filePath then (None, fs)
      else Execute 5 (\<lambda>fs0. case osRemove filePath fs0 of (e, fs1) \<Rightarrow> ((False, e), fs1)) fs)"

fun closeLoop :: "string list \<Rightarrow> filesys \<Rightarrow> error option \<times> filesys" where
  "closeLoop [] fs = (None, fs)"
| "closeLoop (filePath # rest) fs =
     (if filePath = [] then closeLoop rest fs
      else (case removeFileWithRetry filePath fs of
              (Some e, fs1) \<Rightarrow> (Some (CloseReaderError e), fs1)
            | (None, fs1) \<Rightarrow> closeLoop rest fs1))"

definition Close :: "ContentReader \<Rightarrow> filesys \<Rightarrow> error option \<times> filesys \<times> ContentReader" where
  "Close cr fs =
     (case closeLoop (filesPaths cr) fs of
        (Some e, fs1) \<Rightarrow> (Some e, fs1, cr)
      | (None, fs1) \<Rightarrow> (None, fs1, cr\<lparr>filesPaths := []\<rparr>))"

lemma Execute_no_retry:
  "Execute n (\<lambda>fs0. case f fs0 of (e, fs1) \<Rightarrow> ((False, e), fs1)) fs = f fs"
  by (simp add: Execute_def split: prod.splits)

lemma osRemove_ok:
  "osRemove p fs = (None, fs') \<Longrightarrow>
     files fs' = AList.delete p (files fs) \<and> removeCalls fs' = removeCalls fs @ [p]"
  by (auto simp: osRemove_def Let_def split: if_splits)

lemma removeFileWithRetry_ok:
  assumes "removeFileWithRetry p fs = (None, fs')"
  shows "\<not> fileExists fs' p" "fileExists fs' q \<Longrightarrow> fileExists fs q"
    "length (removeCalls fs') \<le> length (removeCalls fs) + 1"
  using assms
  by (auto simp: removeFileWithRetry_def Execute_no_retry fileExists_def readFile_def delete_conv'
      split: if_splits prod.splits dest!: osRemove_ok)

lemma closeLoop_ok:
  "closeLoop ps fs = (None, fs') \<Longrightarrow>
     (\<forall>p \<in> set ps. \<not> fileExists fs' p) \<and> (\<forall>q. fileExists fs' q \<longrightarrow> fileExists fs q)
     \<and> length (removeCalls fs') \<le> length (removeCalls fs) + length ps"
proof (induction ps arbitrary: fs)
  case Nil
  then show ?case by simp
next
  case (Cons p ps)
  show ?case
  proof (cases "p = []")
    case True
    with Cons.prems have "closeLoop ps fs = (None, fs')" by simp
    from Cons.IH [OF this] True show ?thesis
      by (auto simp: fileExists_def readFile_def)
  next
    case False
    with Cons.prems obtain fs1 where r: "removeFileWithRetry p fs = (None, fs1)"
      and c: "closeLoop ps fs1 = (None, fs')"
      by (auto split: prod.splits option.splits)
    from Cons.IH [OF c] removeFileWithRetry_ok [OF r] show ?thesis
      by fastforce
  qed
qed

text \<open>
  Claim C7. When \<^verbatim>\<open>Close\<close> returns without error, none of the reader's file paths
  names a file on the disk any more, and \<^verbatim>\<open>GetFilesPaths\<close> is empty. A path whose file
  is already missing is a success without any removal. At most five removals are attempted
  for a path (in fact one: the handler given to the executor never asks for a retry). The
  100 ms pause is outside the model.
\<close>

theorem Close_unlinks_owned_files:
  "(\<not> fileExists fs p \<longrightarrow> removeFileWithRetry p fs = (None, fs))
   \<and> (Close cr fs = (None, fs', cr') \<longrightarrow>
        (\<forall>q \<in> set (filesPaths cr). \<not> fileExists fs' q)
        \<and> GetFilesPaths cr' = []
        \<and> length (removeCalls fs') \<le> length (removeCalls fs) + 5 * length (filesPaths cr))"
proof (intro conjI impI)
  assume "\<not> fileExists fs p"
  then show "removeFileWithRetry p fs = (None, fs)"
    by (simp add: removeFileWithRetry_def)
next
  assume c: "Close cr fs = (None, fs', cr')"
  then have l: "closeLoop (filesPaths cr) fs = (None, fs')" and r: "cr' = cr\<lparr>filesPaths := []\<rparr>"
    by (auto simp: Close_def split: prod.splits option.splits)
  from closeLoop_ok [OF l] show "\<forall>q \<in> set (filesPaths cr). \<not> fileExists fs' q"
    by blast
  from r show "GetFilesPaths cr' = []"
    by (simp add: GetFilesPaths_def)
  from closeLoop_ok [OF l]
  show "length (removeCalls fs') \<le> length (removeCalls fs) + 5 * length (filesPaths cr)"
    by linarith
qed

theorem Close_unlinks_owned_files_witness:
  "fileExists \<lparr>files = [(''a.json'', [LBrace, RBrace])], busy = (\<lambda>p. 0), removeCalls = [], tmpOk = True\<rparr> ''a.json''
   \<and> \<not> fileExists \<lparr>files = [(''a.json'', [LBrace, RBrace])], busy = (\<lambda>p. 0), removeCalls = [], tmpOk = True\<rparr> ''gone.json''
   \<and> Close (NewMultiSourceContentReader [''a.json'', ''gone.json''] ''results'')
        \<lparr>files = [(''a.json'', [LBrace, RBrace])], busy = (\<lambda>p. 0), removeCalls = [], tmpOk = True\<rparr>
      = (None, \<lparr>files = [], busy = (\<lambda>p. 0), removeCalls = [''a.json''], tmpOk = True\<rparr>,
         (NewMultiSourceContentReader [''a.json'', ''gone.json''] ''results'')\<lparr>filesPaths := []\<rparr>)
   \<and> \<not> fileExists \<lparr>files = [], busy = (\<lambda>p. 0), removeCalls = [''a.json''], tmpOk = True\<rparr> ''a.json''
   \<and> GetFilesPaths ((NewMultiSourceContentReader [''a.json'', ''gone.json''] ''results'')\<lparr>filesPaths := []\<rparr>) = []"
proof -
  let ?fs = "\<lparr>files = [(''a.json'', [LBrace, RBrace])], busy = (\<lambda>p. 0), removeCalls = [], tmpOk = True\<rparr>"
  let ?fs' = "\<lparr>files = [], busy = (\<lambda>p. 0), removeCalls = [''a.json''], tmpOk = True\<rparr>"
  let ?cr = "NewMultiSourceContentReader [''a.json'', ''gone.json''] ''results''"
  have e: "fileExists ?fs ''a.json''" "\<not> fileExists ?fs ''gone.json''"
    by (simp_all add: fileExists_def readFile_def)
  have c: "Close ?cr ?fs = (None, ?fs', ?cr\<lparr>filesPaths := []\<rparr>)"
    by (simp add: Close_def NewMultiSourceContentReader_def removeFileWithRetry_def
        Execute_no_retry osRemove_def fileExists_def readFile_def Let_def)
  show ?thesis
    using e c Close_unlinks_owned_files [of ?fs "''gone.json''" ?cr ?fs' "?cr\<lparr>filesPaths := []\<rparr>"]
    by (simp add: NewMultiSourceContentReader_def)
qed

section \<open>Sorting by a calculated key\<close>

text \<open>
  Modelled from the spec: the constant \<^verbatim>\<open>DefaultKey\<close> is declared outside the sources; the
  spec names \<^verbatim>\<open>results\<close> as the array key of the files the engine creates itself.
\<close>

definition DefaultKey :: string where
  "DefaultKey = ''results''"

record SortRecord =
  Key :: string
  Record :: json

definition GetSortKey :: "SortRecord \<Rightarrow> string" where
  "GetSortKey sr = Key sr"

text \<open>
  Marshalling a \<^verbatim>\<open>SortRecord\<close> whose \<^verbatim>\<open>Record\<close> is the pointer to the record read (never
  a nil interface, so \<^verbatim>\<open>omitempty\<close> leaves it in); an empty key is left out. Unmarshalling
  assigns the attributes in their order; attribute names are matched exactly here.
\<close>

definition marshal_SortRecord :: "SortRecord \<Rightarrow> json" where
  "marshal_SortRecord sr =
     JObj ((if Key sr = [] then [] else [(''key'', JStr (Key sr))]) @ [(''record'', Record sr)])"

fun assignFields :: "(string \<times> json) list \<Rightarrow> SortRecord \<Rightarrow> error + SortRecord" where
  "assignFields [] sr = Inr sr"
| "assignFields ((k, v) # kvs) sr =
     (if k = ''key'' then
        (case v of
           JStr s \<Rightarrow> assignFields kvs (sr\<lparr>Key := s\<rparr>)
         | JNull \<Rightarrow> assignFields kvs sr
         | _ \<Rightarrow> Inl UnmarshalTypeError)
      else if k = ''record'' then assignFields kvs (sr\<lparr>Record := v\<rparr>)
      else assignFields kvs sr)"

fun unmarshal_SortRecord :: "json \<Rightarrow> error + SortRecord" where
  "unmarshal_SortRecord (JObj kvs) = assignFields kvs \<lparr>Key = [], Record = JNull\<rparr>"
| "unmarshal_SortRecord JNull = Inr \<lparr>Key = [], Record = JNull\<rparr>"
| "unmarshal_SortRecord _ = Inl UnmarshalTypeError"

text \<open>
  \<^verbatim>\<open>compareStrings\<close>; Go compares strings byte by byte, which is the lexicographic order
  of \<open>string\<close>.
\<close>

definition compareStrings :: "string \<Rightarrow> string \<Rightarrow> bool \<Rightarrow> bool" where
  "compareStrings src against ascendingOrder =
     (if ascendingOrder then src > against else src < against)"

text \<open>
  \<^verbatim>\<open>SortAndSaveBufferToFile\<close>. \<^verbatim>\<open>sort.Strings\<close> and the reversed sort give the one
  ascending and the one descending arrangement of the keys. A key that the map lacks
  yields the nil item, written as \<^verbatim>\<open>null\<close>.
\<close>

fun writeItems ::
  "(string \<rightharpoonup> SortRecord) \<Rightarrow> string list \<Rightarrow> ContentWriter \<Rightarrow> filesys \<Rightarrow> ContentWriter \<times> filesys" where
  "writeItems keysToContentItems [] writer fs = (writer, fs)"
| "writeItems keysToContentItems (v # rest) writer fs =
     (case Write (case keysToContentItems v of None \<Rightarrow> JNull | Some sr \<Rightarrow> marshal_SortRecord sr)
             writer fs of
        (writer1, fs1) \<Rightarrow> writeItems keysToContentItems rest writer1 fs1)"

definition SortAndSaveBufferToFile ::
  "(string \<rightharpoonup> SortRecord) \<Rightarrow> string list \<Rightarrow> bool \<Rightarrow> filesys
   \<Rightarrow> (ContentReader option \<times> error option) \<times> filesys" where
  "SortAndSaveBufferToFile keysToContentItems allKeys increasingOrder fs =
     (if length allKeys = 0 then ((None, None), fs)
      else (case NewContentWriter DefaultKey fs of
              (Inl e, fs1) \<Rightarrow> ((None, Some e), fs1)
            | (Inr writer, fs1) \<Rightarrow>
                (case writeItems keysToContentItems
                        (if increasingOrder then sort allKeys else rev (sort allKeys)) writer fs1 of
                   (writer2, fs2) \<Rightarrow>
                     (case CloseWriter writer2 fs2 of
                        (ce, writer3, fs3) \<Rightarrow>
                          ((Some (NewContentReader (GetFilePath writer2) (GetArrayKey writer2)),
                            errorsJoin None ce), fs3)))))"

text \<open>
  The loop of \<^verbatim>\<open>splitReaderToSortedBufferSizeReadersByCalculatedKey\<close>, with
  \<^verbatim>\<open>utils.MaxBufferSize\<close>, declared outside the sources, as the parameter \<open>B\<close>. The result is
  an error, or the state at the end of the input.
\<close>

type_synonym keyCalculationFunc = "json \<Rightarrow> error + string"

function splitLoop ::
  "nat \<Rightarrow> keyCalculationFunc \<Rightarrow> bool \<Rightarrow> filesys \<Rightarrow> ContentReader \<Rightarrow> (string \<rightharpoonup> SortRecord)
   \<Rightarrow> string list \<Rightarrow> ContentReader option list
   \<Rightarrow> (error + (string \<rightharpoonup> SortRecord) \<times> string list \<times> ContentReader option list)
      \<times> filesys \<times> ContentReader" where
  "splitLoop B getKeyFunc ascendingOrder fs reader keysToContentItems allKeys splitReaders =
     (case NextRecord unmarshal_any fs reader of
        (Inl e, reader1) \<Rightarrow> (Inr (keysToContentItems, allKeys, splitReaders), fs, reader1)
      | (Inr newRecord, reader1) \<Rightarrow>
          (case getKeyFunc newRecord of
             Inl e \<Rightarrow> (Inl e, fs, reader1)
           | Inr sortKey \<Rightarrow>
               if keysToContentItems sortKey = None then
                 (let items1 = keysToContentItems(sortKey \<mapsto> \<lparr>Key = sortKey, Record = newRecord\<rparr>);
                      keys1 = allKeys @ [sortKey]
                  in if length keys1 = B then
                       (case SortAndSaveBufferToFile items1 keys1 ascendingOrder fs of
                          ((sortedFile, Some e), fs1) \<Rightarrow> (Inl e, fs1, reader1)
                        | ((sortedFile, None), fs1) \<Rightarrow>
                            splitLoop B getKeyFunc ascendingOrder fs1 reader1 Map.empty []
                              (splitReaders @ [sortedFile]))
                     else splitLoop B getKeyFunc ascendingOrder fs reader1 items1 keys1 splitReaders)
               else splitLoop B getKeyFunc ascendingOrder fs reader1 keysToContentItems allKeys
                      splitReaders))"
  by pat_completeness auto
termination
  by (relation "measure (\<lambda>(B, getKeyFunc, ascendingOrder, fs, reader, rest). pendingCount fs reader)")
     (auto dest: NextRecord_pendingCount [OF sym])

declare splitLoop.simps [simp del]

definition splitReaderToSortedBufferSizeReadersByCalculatedKey ::
  "nat \<Rightarrow> ContentReader \<Rightarrow> keyCalculationFunc \<Rightarrow> bool \<Rightarrow> filesys
   \<Rightarrow> (error + ContentReader option list) \<times> filesys \<times> ContentReader" where
  "splitReaderToSortedBufferSizeReadersByCalculatedKey B reader getKeyFunc ascendingOrder fs =
     (case splitLoop B getKeyFunc ascendingOrder fs reader Map.empty [] [] of
        (Inl e, fs1, reader1) \<Rightarrow> (Inl e, fs1, reader1)
      | (Inr (keysToContentItems, allKeys, splitReaders), fs1, reader1) \<Rightarrow>
          (case GetError reader1 of
             (Some e, reader2) \<Rightarrow> (Inl e, fs1, reader2)
           | (None, reader2) \<Rightarrow>
               if length allKeys > 0 then
                 (case SortAndSaveBufferToFile keysToContentItems allKeys ascendingOrder fs1 of
                    ((sortedFile, Some e), fs2) \<Rightarrow> (Inl e, fs2, Reset reader2)
                  | ((sortedFile, None), fs2) \<Rightarrow>
                      (Inr (splitReaders @ [sortedFile]), fs2, Reset reader2))
               else (Inr splitReaders, fs1, Reset reader2)))"

subsection \<open>Merging the sorted runs\<close>

text \<open>
  The two arrays of \<^verbatim>\<open>mergeSortedReadersByCalculatedKey\<close>, of one length, are a list of
  slots: the current item of a run (\<^verbatim>\<open>currentContentItem[i]\<close>) and its reader
  (\<^verbatim>\<open>sortedFilesClone[i]\<close>), either of which may be \<^verbatim>\<open>nil\<close>. The runs are the
  readers that the split has just created, each of them named once in the list, so that a
  slot holds its reader itself.
\<close>

type_synonym slot = "SortRecord option \<times> ContentReader option"

text \<open>The head of the loop body: \<open>None\<close> is the \<^verbatim>\<open>continue\<close> after a failed read.\<close>

fun pullSlot :: "filesys \<Rightarrow> slot \<Rightarrow> slot option" where
  "pullSlot fs (None, Some file) =
     (case NextRecord unmarshal_SortRecord fs file of
        (Inl e, file1) \<Rightarrow> None
      | (Inr record, file1) \<Rightarrow> Some (Some record, Some file1))"
| "pullSlot fs sl = Some sl"

text \<open>
  The rest of the loop body, on the candidate and the current item of the slot: the item
  as the body leaves it (dropped when its key is the candidate's), and whether it becomes
  the candidate.
\<close>

definition compareSlot :: "bool \<Rightarrow> SortRecord option \<Rightarrow> SortRecord option \<Rightarrow> SortRecord option \<times> bool" where
  "compareSlot ascendingOrder candidateToWrite cur =
     (let both = (candidateToWrite \<noteq> None \<and> cur \<noteq> None);
          candidateKey = (if both then Key (the candidateToWrite) else []);
          currentKey = (if both then Key (the cur) else []);
          cur1 = (if both \<and> candidateKey = currentKey then None else cur)
      in (cur1, candidateToWrite = None
                \<or> (cur1 \<noteq> None \<and> compareStrings candidateKey currentKey ascendingOrder)))"

fun mergeScan ::
  "bool \<Rightarrow> filesys \<Rightarrow> SortRecord option \<Rightarrow> nat \<Rightarrow> nat \<Rightarrow> slot list
   \<Rightarrow> SortRecord option \<times> nat \<times> slot list" where
  "mergeScan ascendingOrder fs candidateToWrite smallestIndex i [] =
     (candidateToWrite, smallestIndex, [])"
| "mergeScan ascendingOrder fs candidateToWrite smallestIndex i (sl # rest) =
     (case pullSlot fs sl of
        None \<Rightarrow>
          (case mergeScan ascendingOrder fs candidateToWrite smallestIndex (Suc i) rest of
             (c, s, rest1) \<Rightarrow> (c, s, (None, None) # rest1))
      | Some (cur, file) \<Rightarrow>
          (case compareSlot ascendingOrder candidateToWrite cur of
             (cur1, replace) \<Rightarrow>
               (case mergeScan ascendingOrder fs (if replace then cur1 else candidateToWrite)
                       (if replace then i else smallestIndex) (Suc i) rest of
                  (c, s, rest1) \<Rightarrow> (c, s, (cur1, file) # rest1))))"


text \<open>What bounds the merge: the readers still to start, then the items still to write.\<close>

fun unstarted :: "'a option \<times> ContentReader option \<Rightarrow> nat" where
  "unstarted (cur, Some file) = (if \<not> once file \<and> \<not> empty file then 1 else 0)"
| "unstarted (cur, None) = 0"

fun weight :: "'a option \<times> ContentReader option \<Rightarrow> nat" where
  "weight (cur, file) =
     (if cur = None then 0 else 1)
     + (case file of None \<Rightarrow> 0 | Some r \<Rightarrow> Suc (length (dataChannel r)))"

definition slotLE ::
  "'a option \<times> ContentReader option \<Rightarrow> 'a option \<times> ContentReader option \<Rightarrow> bool" where
  "slotLE a b \<longleftrightarrow> unstarted a \<le> unstarted b \<and> (unstarted a = unstarted b \<longrightarrow> weight a \<le> weight b)"

lemma slotLE_refl: "slotLE a a"
  by (simp add: slotLE_def)

lemma NextRecord_progress:
  assumes "NextRecord um fs r = (res, r1)"
  shows "res = Inl e \<Longrightarrow> True"
    and "res = Inr v \<Longrightarrow> once r1 \<and> \<not> empty r1 \<and> \<not> empty r
          \<and> (once r \<longrightarrow> Suc (length (dataChannel r1)) = length (dataChannel r))"
  using assms
  by (auto simp: NextRecord_def Let_def run_frame split: if_splits list.splits sum.splits)

lemma pullSlot_None: "pullSlot fs sl = None \<Longrightarrow> slotLE (None, None) sl \<and> weight sl > 0"
  by (cases "(fs, sl)" rule: pullSlot.cases) (auto simp: slotLE_def split: prod.splits sum.splits)

lemma pullSlot_Some: "pullSlot fs sl = Some sl1 \<Longrightarrow> slotLE sl1 sl"
proof (cases "(fs, sl)" rule: pullSlot.cases)
  case (1 fs' rd)
  assume p: "pullSlot fs sl = Some sl1"
  obtain res r1 where n: "NextRecord unmarshal_SortRecord fs rd = (res, r1)"
    by (cases "NextRecord unmarshal_SortRecord fs rd")
  with p 1 obtain v where v: "res = Inr v" "sl1 = (Some v, Some r1)"
    by (cases res) auto
  from NextRecord_progress(2) [OF n v(1)] 1 v show ?thesis
    by (auto simp: slotLE_def)
qed (auto simp: slotLE_refl)

lemma mergeScan_bound:
  "mergeScan asc fs cand sm i slots = (c, s, slots1) \<Longrightarrow>
   list_all2 slotLE slots1 slots
   \<and> (c = cand \<and> (c \<noteq> None \<longrightarrow> s = sm)
      \<or> (\<exists>x. c = Some x \<and> i \<le> s \<and> s - i < length slots1 \<and> fst (slots1 ! (s - i)) = Some x))"
proof (induction slots arbitrary: cand sm i c s slots1)
  case Nil
  then show ?case by simp
next
  case (Cons sl rest)
  show ?case
  proof (cases "pullSlot fs sl")
    case None
    with Cons.prems obtain rest1 where
      r: "mergeScan asc fs cand sm (Suc i) rest = (c, s, rest1)" and s1: "slots1 = (None, None) # rest1"
      by (auto split: prod.splits)
    from Cons.IH [OF r] pullSlot_None [OF None] s1 show ?thesis
      by (auto simp: Suc_diff_le)
  next
    case (Some p)
    obtain cur rd where p: "p = (cur, rd)" by (cases p)
    obtain cur1 replace where cs: "compareSlot asc cand cur = (cur1, replace)"
      by (cases "compareSlot asc cand cur")
    from Cons.prems Some p cs obtain rest1 where
      r: "mergeScan asc fs (if replace then cur1 else cand) (if replace then i else sm) (Suc i) rest
          = (c, s, rest1)"
      and s1: "slots1 = (cur1, rd) # rest1"
      by (auto split: prod.splits)
    have c1: "cur1 = cur \<or> cur1 = None"
      using cs by (auto simp: compareSlot_def Let_def split: if_splits)
    have rp: "replace \<Longrightarrow> cur1 = None \<Longrightarrow> cand = None"
      using cs by (auto simp: compareSlot_def Let_def split: if_splits)
    have le: "slotLE (cur1, rd) sl"
      using pullSlot_Some [OF Some] p c1
      by (cases sl) (auto simp: slotLE_def split: option.splits if_splits)
    from Cons.IH [OF r] have
      a: "list_all2 slotLE rest1 rest"
      and b: "c = (if replace then cur1 else cand)
            \<and> (c \<noteq> None \<longrightarrow> s = (if replace then i else sm))
          \<or> (\<exists>x. c = Some x \<and> Suc i \<le> s \<and> s - Suc i < length rest1
               \<and> fst (rest1 ! (s - Suc i)) = Some x)"
      by simp_all
    from b have "c = cand \<and> (c \<noteq> None \<longrightarrow> s = sm)
        \<or> (\<exists>x. c = Some x \<and> i \<le> s \<and> s - i < length slots1 \<and> fst (slots1 ! (s - i)) = Some x)"
    proof
      assume h: "c = (if replace then cur1 else cand)
            \<and> (c \<noteq> None \<longrightarrow> s = (if replace then i else sm))"
      show ?thesis
      proof (cases replace)
        case False
        with h show ?thesis by simp
      next
        case True
        show ?thesis
        proof (cases cur1)
          case None
          with True rp have "cand = None" by simp
          with h True None show ?thesis
            by simp
        next
          case (Some x)
          with h True show ?thesis by (simp add: s1)
        qed
      qed
    next
      assume "\<exists>x. c = Some x \<and> Suc i \<le> s \<and> s - Suc i < length rest1
               \<and> fst (rest1 ! (s - Suc i)) = Some x"
      then show ?thesis
        by (auto simp: s1 Suc_diff_le)
    qed
    with a le s1 show ?thesis by simp
  qed
qed

definition unstartedCount :: "('a option \<times> ContentReader option) list \<Rightarrow> nat" where
  "unstartedCount slots = sum_list (map unstarted slots)"

definition totalWeight :: "('a option \<times> ContentReader option) list \<Rightarrow> nat" where
  "totalWeight slots = sum_list (map weight slots)"

lemma slotLE_sums:
  "list_all2 slotLE xs ys \<Longrightarrow>
   unstartedCount xs \<le> unstartedCount ys
   \<and> (unstartedCount xs = unstartedCount ys \<longrightarrow> totalWeight xs \<le> totalWeight ys)"
proof (induction rule: list_all2_induct)
  case Nil
  then show ?case by (simp add: unstartedCount_def totalWeight_def)
next
  case (Cons x xs y ys)
  then show ?case
    by (auto simp: unstartedCount_def totalWeight_def slotLE_def)
qed

lemma clear_head_sums:
  "s < length xs \<Longrightarrow> fst (xs ! s) = Some x \<Longrightarrow>
   unstartedCount (xs[s := (None, snd (xs ! s))]) = unstartedCount xs
   \<and> totalWeight (xs[s := (None, snd (xs ! s))]) < totalWeight xs"
proof (induction xs arbitrary: s)
  case Nil
  then show ?case by simp
next
  case (Cons a xs)
  show ?case
  proof (cases s)
    case 0
    with Cons.prems show ?thesis
      by (cases a; cases "snd a") (auto simp: unstartedCount_def totalWeight_def)
  next
    case (Suc n)
    with Cons.prems Cons.IH [of n] show ?thesis
      by (auto simp: unstartedCount_def totalWeight_def)
  qed
qed

lemma mergeScan_decreases:
  assumes "mergeScan asc fs None 0 0 slots = (Some c, s, slots1)"
  shows "unstartedCount (slots1[s := (None, snd (slots1 ! s))]) < unstartedCount slots
     \<or> unstartedCount (slots1[s := (None, snd (slots1 ! s))]) = unstartedCount slots
       \<and> totalWeight (slots1[s := (None, snd (slots1 ! s))]) < totalWeight slots"
proof -
  from mergeScan_bound [OF assms] have le: "list_all2 slotLE slots1 slots"
    and i: "s < length slots1" "fst (slots1 ! s) = Some c"
    by auto
  from slotLE_sums [OF le] clear_head_sums [OF i] show ?thesis
    by auto
qed

function mergeByKeyLoop :: "bool \<Rightarrow> filesys \<Rightarrow> ContentWriter \<Rightarrow> slot list \<Rightarrow> ContentWriter \<times> filesys" where
  "mergeByKeyLoop ascendingOrder fs resultWriter slots =
     (case mergeScan ascendingOrder fs None 0 0 slots of
        (None, smallestIndex, slots1) \<Rightarrow> (resultWriter, fs)
      | (Some candidateToWrite, smallestIndex, slots1) \<Rightarrow>
          (case Write (Record candidateToWrite) resultWriter fs of
             (resultWriter1, fs1) \<Rightarrow>
               mergeByKeyLoop ascendingOrder fs1 resultWriter1
                 (slots1[smallestIndex := (None, snd (slots1 ! smallestIndex))])))"
  by pat_completeness auto
termination
  apply (relation "inv_image (less_than <*lex*> less_than)
    (\<lambda>(ascendingOrder, fs, resultWriter, slots). (unstartedCount slots, totalWeight slots))")
   apply (intro wf_inv_image wf_lex_prod wf_less_than)
  apply (auto dest!: mergeScan_decreases [OF sym])
  done

declare mergeByKeyLoop.simps [simp del]

definition mergeSortedReadersByCalculatedKey ::
  "ContentReader option list \<Rightarrow> bool \<Rightarrow> filesys \<Rightarrow> (ContentReader option \<times> error option) \<times> filesys" where
  "mergeSortedReadersByCalculatedKey sortedReaders ascendingOrder fs =
     (if length sortedReaders = 0 then ((Some (NewEmptyContentReader DefaultKey), None), fs)
      else (case NewContentWriter DefaultKey fs of
              (Inl e, fs1) \<Rightarrow> ((None, Some e), fs1)
            | (Inr resultWriter, fs1) \<Rightarrow>
                (case mergeByKeyLoop ascendingOrder fs1 resultWriter
                        (map (\<lambda>r. (None, r)) sortedReaders) of
                   (resultWriter2, fs2) \<Rightarrow>
                     (case CloseWriter resultWriter2 fs2 of
                        (ce, resultWriter3, fs3) \<Rightarrow>
                          ((Some (NewContentReader (GetFilePath resultWriter2)
                                    (GetArrayKey resultWriter2)),
                            errorsJoin None ce), fs3)))))"

text \<open>
  The deferred function of \<^verbatim>\<open>SortContentReaderByCalculatedKey\<close>: every run is closed and
  the errors are joined. \<^verbatim>\<open>Close\<close> reads only the file paths of a reader, which no
  \<^verbatim>\<open>NextRecord\<close> changes, so the runs are closed in the state the split left them in.
  Closing a \<^verbatim>\<open>nil\<close> reader is a nil dereference.
\<close>

fun closeAll :: "ContentReader option list \<Rightarrow> error option \<Rightarrow> filesys \<Rightarrow> error option \<times> filesys" where
  "closeAll [] err fs = (err, fs)"
| "closeAll (None # rest) err fs = (Some GoPanic, fs)"
| "closeAll (Some r # rest) err fs =
     (case Close r fs of (ce, fs1, r1) \<Rightarrow> closeAll rest (errorsJoin err ce) fs1)"

definition SortContentReaderByCalculatedKey ::
  "nat \<Rightarrow> ContentReader \<Rightarrow> keyCalculationFunc \<Rightarrow> bool \<Rightarrow> filesys
   \<Rightarrow> (ContentReader option \<times> error option) \<times> filesys \<times> ContentReader" where
  "SortContentReaderByCalculatedKey B reader getKeyFunc ascendingOrder fs =
     (case splitReaderToSortedBufferSizeReadersByCalculatedKey B reader getKeyFunc ascendingOrder fs of
        (Inl e, fs1, reader1) \<Rightarrow> ((None, Some e), fs1, reader1)
      | (Inr sortedReaders, fs1, reader1) \<Rightarrow>
          (case mergeSortedReadersByCalculatedKey sortedReaders ascendingOrder fs1 of
             ((contentReader, err), fs2) \<Rightarrow>
               (case closeAll sortedReaders err fs2 of
                  (err1, fs3) \<Rightarrow> ((contentReader, err1), fs3, reader1))))"

section \<open>Merging sorted readers of sortable items\<close>

text \<open>
  The prototype \<^verbatim>\<open>readerRecord\<close> stands for its Go type: how a record is unmarshalled
  into a value of the type and marshalled back, the type's \<^verbatim>\<open>GetSortKey\<close>, and whether a
  pointer to a new value of the type asserts to \<^verbatim>\<open>SortableContentItem\<close>.
\<close>

record 's prototype =
  unmarshalItem :: "json \<Rightarrow> error + 's"
  marshalItem :: "'s \<Rightarrow> json"
  itemSortKey :: "'s \<Rightarrow> string"
  assertable :: bool

text \<open>
  The two arrays of \<^verbatim>\<open>MergeSortedReaders\<close> are a list of slots: the current item
  (\<^verbatim>\<open>currentContentItem[i]\<close>) and the pointer to the reader (\<^verbatim>\<open>sortedFilesClone[i]\<close>, a
  copy of the pointer given), either of which may be \<^verbatim>\<open>nil\<close>. \<^verbatim>\<open>NextRecord\<close> on a pointer
  reads from the reader in the store and leaves it there as read: slots with one pointer
  share one reader.
\<close>

fun pullItem ::
  "'s prototype \<Rightarrow> filesys \<Rightarrow> store \<Rightarrow> 's option \<times> nat option
   \<Rightarrow> (error + ('s option \<times> nat option) option) \<times> store" where
  "pullItem proto fs st (None, Some a) =
     (case NextRecord (unmarshalItem proto) fs (st a) of
        (Inl e, file1) \<Rightarrow> (Inr None, st(a := file1))
      | (Inr temp, file1) \<Rightarrow>
          (if \<not> assertable proto then Inl Unsortable else Inr (Some (Some temp, Some a)),
           st(a := file1)))"
| "pullItem proto fs st sl = (Inr (Some sl), st)"

fun mergeScanItems ::
  "'s prototype \<Rightarrow> bool \<Rightarrow> filesys \<Rightarrow> store \<Rightarrow> 's option \<Rightarrow> nat \<Rightarrow> nat
   \<Rightarrow> ('s option \<times> nat option) list
   \<Rightarrow> (error + 's option \<times> nat \<times> ('s option \<times> nat option) list) \<times> store" where
  "mergeScanItems proto ascendingOrder fs st candidateToWrite smallestIndex i [] =
     (Inr (candidateToWrite, smallestIndex, []), st)"
| "mergeScanItems proto ascendingOrder fs st candidateToWrite smallestIndex i (sl # rest) =
     (case pullItem proto fs st sl of
        (Inl e, st1) \<Rightarrow> (Inl e, st1)
      | (Inr None, st1) \<Rightarrow>
          (case mergeScanItems proto ascendingOrder fs st1 candidateToWrite smallestIndex (Suc i) rest of
             (Inl e, st2) \<Rightarrow> (Inl e, st2)
           | (Inr (c, s, rest1), st2) \<Rightarrow> (Inr (c, s, (None, None) # rest1), st2))
      | (Inr (Some (cur, file)), st1) \<Rightarrow>
          (let replace =
                 (candidateToWrite = None
                  \<or> (cur \<noteq> None
                     \<and> compareStrings (itemSortKey proto (the candidateToWrite))
                          (itemSortKey proto (the cur)) ascendingOrder))
           in case mergeScanItems proto ascendingOrder fs st1 (if replace then cur else candidateToWrite)
                     (if replace then i else smallestIndex) (Suc i) rest of
                (Inl e, st2) \<Rightarrow> (Inl e, st2)
              | (Inr (c, s, rest1), st2) \<Rightarrow> (Inr (c, s, (cur, file) # rest1), st2)))"

text \<open>A slot with the reader its pointer names, and the order of readers that bounds the merge.\<close>

definition deref :: "store \<Rightarrow> 'a option \<times> nat option \<Rightarrow> 'a option \<times> ContentReader option" where
  "deref st sl = (fst sl, map_option st (snd sl))"

definition readerLE :: "ContentReader \<Rightarrow> ContentReader \<Rightarrow> bool" where
  "readerLE r1 r \<longleftrightarrow>
     ((\<not> once r1 \<and> \<not> empty r1) \<longrightarrow> (\<not> once r \<and> \<not> empty r))
     \<and> (((\<not> once r1 \<and> \<not> empty r1) \<longleftrightarrow> (\<not> once r \<and> \<not> empty r))
          \<longrightarrow> length (dataChannel r1) \<le> length (dataChannel r))"

definition storeLE :: "store \<Rightarrow> store \<Rightarrow> bool" where
  "storeLE st1 st \<longleftrightarrow> (\<forall>a. readerLE (st1 a) (st a))"

lemma readerLE_refl: "readerLE r r"
  by (simp add: readerLE_def)

lemma readerLE_trans: "readerLE r2 r1 \<Longrightarrow> readerLE r1 r \<Longrightarrow> readerLE r2 r"
  by (auto simp: readerLE_def)

lemma storeLE_refl: "storeLE st st"
  by (simp add: storeLE_def readerLE_refl)

lemma storeLE_trans: "storeLE st2 st1 \<Longrightarrow> storeLE st1 st \<Longrightarrow> storeLE st2 st"
  unfolding storeLE_def by (blast intro: readerLE_trans)

lemma storeLE_upd: "readerLE r (st a) \<Longrightarrow> storeLE (st(a := r)) st"
  by (simp add: storeLE_def readerLE_refl)

lemma slotLE_trans: "slotLE a b \<Longrightarrow> slotLE b c \<Longrightarrow> slotLE a c"
  by (auto simp: slotLE_def)

lemma deref_mono: "storeLE st1 st \<Longrightarrow> slotLE (deref st1 sl) (deref st sl)"
  by (cases sl; cases "snd sl") (auto simp: deref_def slotLE_def storeLE_def readerLE_def)

lemma NextRecord_readerLE: "NextRecord um fs r = (res, r1) \<Longrightarrow> readerLE r1 r"
  by (auto simp: NextRecord_def readerLE_def Let_def run_frame
      split: if_splits list.splits sum.splits)

lemma pullItem_bound:
  assumes "pullItem proto fs st sl = (Inr q, st1)"
  shows "storeLE st1 st"
    and "q = None \<Longrightarrow> slotLE (None, None) (deref st sl)"
    and "q = Some sl1 \<Longrightarrow> slotLE (deref st1 sl1) (deref st sl)"
proof -
  have "storeLE st1 st \<and> (q = None \<longrightarrow> slotLE (None, None) (deref st sl))
      \<and> (\<forall>sl1. q = Some sl1 \<longrightarrow> slotLE (deref st1 sl1) (deref st sl))"
  proof (cases "\<exists>a. sl = (None, Some a)")
    case True
    then obtain a where sl: "sl = (None, Some a)" by blast
    obtain res r1 where n: "NextRecord (unmarshalItem proto) fs (st a) = (res, r1)"
      by (cases "NextRecord (unmarshalItem proto) fs (st a)")
    from NextRecord_readerLE [OF n] have le: "storeLE (st(a := r1)) st" by (rule storeLE_upd)
    show ?thesis
    proof (cases res)
      case (Inl e)
      with assms sl n le show ?thesis by (auto simp: deref_def slotLE_def)
    next
      case (Inr v)
      with assms sl n have q: "q = Some (Some v, Some a)" "st1 = st(a := r1)"
        by (auto split: if_splits)
      from NextRecord_progress(2) [OF n Inr] q le show ?thesis
        by (auto simp: deref_def slotLE_def sl)
    qed
  next
    case False
    then have "pullItem proto fs st sl = (Inr (Some sl), st)"
      by (cases "(proto, fs, st, sl)" rule: pullItem.cases) auto
    with assms show ?thesis by (auto simp: storeLE_refl slotLE_refl)
  qed
  then show "storeLE st1 st" and "q = None \<Longrightarrow> slotLE (None, None) (deref st sl)"
    and "q = Some sl1 \<Longrightarrow> slotLE (deref st1 sl1) (deref st sl)"
    by simp_all
qed

lemma list_all2_slotLE_store:
  assumes "list_all2 slotLE xs (map (deref st1) slots)" and "storeLE st1 st"
  shows "list_all2 slotLE xs (map (deref st) slots)"
proof (rule list_all2_all_nthI)
  show "length xs = length (map (deref st) slots)"
    using assms(1) by (simp add: list_all2_lengthD [OF assms(1), simplified])
next
  fix n
  assume n: "n < length xs"
  from assms(1) have l: "length xs = length slots" by (auto dest: list_all2_lengthD)
  from list_all2_nthD [OF assms(1) n] n l have "slotLE (xs ! n) (deref st1 (slots ! n))"
    by simp
  from slotLE_trans [OF this deref_mono [OF assms(2)]] n l
  show "slotLE (xs ! n) (map (deref st) slots ! n)" by simp
qed

lemma mergeScanItems_bound:
  "mergeScanItems proto asc fs st cand sm i slots = (Inr (c, s, slots1), st1) \<Longrightarrow>
   storeLE st1 st
   \<and> list_all2 slotLE (map (deref st1) slots1) (map (deref st) slots)
   \<and> (c = cand \<and> (c \<noteq> None \<longrightarrow> s = sm)
      \<or> (\<exists>x. c = Some x \<and> i \<le> s \<and> s - i < length slots1 \<and> fst (slots1 ! (s - i)) = Some x))"
proof (induction slots arbitrary: st cand sm i c s slots1)
  case Nil
  then show ?case by (simp add: storeLE_refl)
next
  case (Cons sl rest)
  obtain pq st0 where pq0: "pullItem proto fs st sl = (pq, st0)"
    by (cases "pullItem proto fs st sl")
  with Cons.prems obtain q where pq: "pullItem proto fs st sl = (Inr q, st0)"
    by (cases pq) auto
  note pb = pullItem_bound [OF pq]
  show ?case
  proof (cases q)
    case None
    with Cons.prems pq obtain rest1 where
      r: "mergeScanItems proto asc fs st0 cand sm (Suc i) rest = (Inr (c, s, rest1), st1)"
      and s1: "slots1 = (None, None) # rest1"
      by (auto split: prod.splits sum.splits)
    from Cons.IH [OF r] have
      le: "storeLE st1 st0" and a: "list_all2 slotLE (map (deref st1) rest1) (map (deref st0) rest)"
      and b: "c = cand \<and> (c \<noteq> None \<longrightarrow> s = sm)
          \<or> (\<exists>x. c = Some x \<and> Suc i \<le> s \<and> s - Suc i < length rest1
               \<and> fst (rest1 ! (s - Suc i)) = Some x)"
      by simp_all
    have "slotLE (deref st1 (None, None)) (deref st sl)"
      using pb(2) [OF None] by (simp add: deref_def)
    with list_all2_slotLE_store [OF a pb(1)] storeLE_trans [OF le pb(1)] b s1 show ?thesis
      by (auto simp: Suc_diff_le)
  next
    case (Some p)
    obtain cur rd where p: "p = (cur, rd)" by (cases p)
    define replace where "replace = (cand = None
        \<or> (cur \<noteq> None \<and> compareStrings (itemSortKey proto (the cand)) (itemSortKey proto (the cur)) asc))"
    from Cons.prems pq Some p obtain rest1 where
      r: "mergeScanItems proto asc fs st0 (if replace then cur else cand) (if replace then i else sm)
            (Suc i) rest = (Inr (c, s, rest1), st1)"
      and s1: "slots1 = (cur, rd) # rest1"
      unfolding replace_def by (auto simp: Let_def split: prod.splits sum.splits)
    from Cons.IH [OF r] have
      le: "storeLE st1 st0" and a: "list_all2 slotLE (map (deref st1) rest1) (map (deref st0) rest)"
      and b: "c = (if replace then cur else cand)
            \<and> (c \<noteq> None \<longrightarrow> s = (if replace then i else sm))
          \<or> (\<exists>x. c = Some x \<and> Suc i \<le> s \<and> s - Suc i < length rest1
               \<and> fst (rest1 ! (s - Suc i)) = Some x)"
      by simp_all
    have hd: "slotLE (deref st1 (cur, rd)) (deref st sl)"
      using slotLE_trans [OF deref_mono [OF le] pb(3) [OF Some]] p by simp
    from b have "c = cand \<and> (c \<noteq> None \<longrightarrow> s = sm)
        \<or> (\<exists>x. c = Some x \<and> i \<le> s \<and> s - i < length slots1 \<and> fst (slots1 ! (s - i)) = Some x)"
    proof
      assume h: "c = (if replace then cur else cand)
            \<and> (c \<noteq> None \<longrightarrow> s = (if replace then i else sm))"
      show ?thesis
      proof (cases replace)
        case False
        with h show ?thesis by simp
      next
        case True
        show ?thesis
        proof (cases cur)
          case None
          with True have "cand = None" by (simp add: replace_def)
          with h True None show ?thesis by simp
        next
          case (Some x)
          with h True show ?thesis by (simp add: s1)
        qed
      qed
    next
      assume "\<exists>x. c = Some x \<and> Suc i \<le> s \<and> s - Suc i < length rest1
               \<and> fst (rest1 ! (s - Suc i)) = Some x"
      then show ?thesis
        by (auto simp: s1 Suc_diff_le)
    qed
    with list_all2_slotLE_store [OF a pb(1)] storeLE_trans [OF le pb(1)] hd s1 show ?thesis
      by simp
  qed
qed

lemma deref_clear_head:
  "s < length xs \<Longrightarrow>
   map (deref st) (xs[s := (None, snd (xs ! s))])
     = (map (deref st) xs)[s := (None, snd (map (deref st) xs ! s))]"
  by (simp add: map_update deref_def)

lemma mergeScanItems_decreases:
  assumes "mergeScanItems proto asc fs st None 0 0 slots = (Inr (Some c, s, slots1), st1)"
  shows "unstartedCount (map (deref st1) (slots1[s := (None, snd (slots1 ! s))]))
           < unstartedCount (map (deref st) slots)
     \<or> unstartedCount (map (deref st1) (slots1[s := (None, snd (slots1 ! s))]))
           = unstartedCount (map (deref st) slots)
       \<and> totalWeight (map (deref st1) (slots1[s := (None, snd (slots1 ! s))]))
           < totalWeight (map (deref st) slots)"
proof -
  from mergeScanItems_bound [OF assms] have
    le: "list_all2 slotLE (map (deref st1) slots1) (map (deref st) slots)"
    and i: "s < length slots1" "fst (slots1 ! s) = Some c"
    by auto
  from i have "s < length (map (deref st1) slots1)" "fst (map (deref st1) slots1 ! s) = Some c"
    by (simp_all add: deref_def)
  from slotLE_sums [OF le] clear_head_sums [OF this] show ?thesis
    by (simp only: deref_clear_head [OF i(1)]) auto
qed

function mergeItemsLoop ::
  "'s prototype \<Rightarrow> bool \<Rightarrow> filesys \<Rightarrow> store \<Rightarrow> ContentWriter \<Rightarrow> ('s option \<times> nat option) list
   \<Rightarrow> error option \<times> ContentWriter \<times> filesys \<times> store" where
  "mergeItemsLoop proto ascendingOrder fs st resultWriter slots =
     (case mergeScanItems proto ascendingOrder fs st None 0 0 slots of
        (Inl e, st1) \<Rightarrow> (Some e, resultWriter, fs, st1)
      | (Inr (None, smallestIndex, slots1), st1) \<Rightarrow> (None, resultWriter, fs, st1)
      | (Inr (Some candidateToWrite, smallestIndex, slots1), st1) \<Rightarrow>
          (case Write (marshalItem proto candidateToWrite) resultWriter fs of
             (resultWriter1, fs1) \<Rightarrow>
               mergeItemsLoop proto ascendingOrder fs1 st1 resultWriter1
                 (slots1[smallestIndex := (None, snd (slots1 ! smallestIndex))])))"
  by pat_completeness auto
termination
  apply (relation "inv_image (less_than <*lex*> less_than)
    (\<lambda>(proto, ascendingOrder, fs, st, resultWriter, slots).
       (unstartedCount (map (deref st) slots), totalWeight (map (deref st) slots)))")
   apply (intro wf_inv_image wf_lex_prod wf_less_than)
  apply (auto dest!: mergeScanItems_decreases mergeScanItems_decreases [OF sym])
  done

declare mergeItemsLoop.simps [simp del]

text \<open>
  \<^verbatim>\<open>MergeSortedReaders\<close>: the returned reader (a new object, given by its value) and error,
  the disk, and the store with the input readers as the call leaves them.
\<close>

definition MergeSortedReaders ::
  "'s prototype \<Rightarrow> nat option list \<Rightarrow> bool \<Rightarrow> store \<Rightarrow> filesys
   \<Rightarrow> (ContentReader option \<times> error option) \<times> filesys \<times> store" where
  "MergeSortedReaders readerRecord sortedReaders ascendingOrder st fs =
     (if length sortedReaders = 0 then ((Some (NewEmptyContentReader DefaultKey), None), fs, st)
      else (case NewContentWriter DefaultKey fs of
              (Inl e, fs1) \<Rightarrow> ((None, Some e), fs1, st)
            | (Inr resultWriter, fs1) \<Rightarrow>
                (case mergeItemsLoop readerRecord ascendingOrder fs1 st resultWriter
                        (map (\<lambda>r. (None, r)) sortedReaders) of
                   (Some e, resultWriter2, fs2, st2) \<Rightarrow>
                     (case CloseWriter resultWriter2 fs2 of
                        (ce, resultWriter3, fs3) \<Rightarrow> ((None, errorsJoin (Some e) ce), fs3, st2))
                 | (None, resultWriter2, fs2, st2) \<Rightarrow>
                     (case CloseWriter resultWriter2 fs2 of
                        (ce, resultWriter3, fs3) \<Rightarrow>
                          ((Some (NewContentReader (GetFilePath resultWriter2)
                                    (GetArrayKey resultWriter2)),
                            errorsJoin None ce), fs3, st2)))))"

section \<open>Runs as streams of items\<close>

text \<open>
  The items a reader still yields when every record left in it converts into the type
  read, and the stream of a slot: its current item, then the items of its reader.
\<close>

definition itemsOf :: "(json \<Rightarrow> error + 'a) \<Rightarrow> filesys \<Rightarrow> ContentReader \<Rightarrow> 'a list" where
  "itemsOf um fs r = map (\<lambda>m. projr (ConvertToStruct um m)) (pending fs r)"

definition allConvert :: "(json \<Rightarrow> error + 'a) \<Rightarrow> filesys \<Rightarrow> ContentReader \<Rightarrow> bool" where
  "allConvert um fs r = list_all (\<lambda>m. \<not> isl (ConvertToStruct um m)) (pending fs r)"




lemma NextRecord_um_Nil:
  assumes "pending fs r = []"
  shows "\<exists>e r1. NextRecord um fs r = (Inl e, r1)"
proof -
  consider (e) "empty r" | (f) "\<not> empty r" "once r" | (u) "\<not> empty r" "\<not> once r"
    by blast
  then show ?thesis
  proof cases
    case e
    then show ?thesis by (simp add: NextRecord_def)
  next
    case f
    with assms show ?thesis by (simp add: NextRecord_fired pending_def)
  next
    case u
    with assms show ?thesis
      by (simp add: NextRecord_unfired [OF u, of _ fs fs] NextRecord_fired pending_def)
  qed
qed

lemma NextRecord_um_Cons:
  assumes "pending fs r = m # ms" and "ConvertToStruct um m = Inr x"
  shows "\<exists>r1. NextRecord um fs r = (Inr x, r1) \<and> pending fs1 r1 = ms
     \<and> filesPaths r1 = filesPaths r"
proof -
  from assms have ne: "\<not> empty r" by (auto simp: pending_def split: if_splits)
  show ?thesis
  proof (cases "once r")
    case True
    with ne assms show ?thesis
      by (simp add: NextRecord_fired pending_def)
  next
    case False
    with ne assms show ?thesis
      by (simp add: NextRecord_unfired [OF ne False, of _ fs fs] NextRecord_fired pending_def)
  qed
qed

text \<open>Reading the next item of a reader whose records all convert.\<close>

lemma NextRecord_items:
  assumes "allConvert um fs r"
  shows "itemsOf um fs r = [] \<Longrightarrow> \<exists>e r1. NextRecord um fs r = (Inl e, r1)"
    and "itemsOf um fs r = x # xs \<Longrightarrow>
         \<exists>r1. NextRecord um fs r = (Inr x, r1) \<and> itemsOf um fs1 r1 = xs
           \<and> allConvert um fs1 r1 \<and> filesPaths r1 = filesPaths r"
proof -
  assume "itemsOf um fs r = []"
  then have "pending fs r = []" by (simp add: itemsOf_def)
  from NextRecord_um_Nil [OF this] show "\<exists>e r1. NextRecord um fs r = (Inl e, r1)" .
next
  assume i: "itemsOf um fs r = x # xs"
  then obtain m ms where p: "pending fs r = m # ms"
    and x: "x = projr (ConvertToStruct um m)"
    and xs: "xs = map (\<lambda>m. projr (ConvertToStruct um m)) ms"
    by (auto simp: itemsOf_def)
  from assms p have c: "\<not> isl (ConvertToStruct um m)"
    and cs: "list_all (\<lambda>m. \<not> isl (ConvertToStruct um m)) ms"
    by (simp_all add: allConvert_def)
  from c x have "ConvertToStruct um m = Inr x"
    by (cases "ConvertToStruct um m") simp_all
  from NextRecord_um_Cons [OF p this, of fs1] xs cs
  show "\<exists>r1. NextRecord um fs r = (Inr x, r1) \<and> itemsOf um fs1 r1 = xs
           \<and> allConvert um fs1 r1 \<and> filesPaths r1 = filesPaths r"
    by (auto simp: itemsOf_def allConvert_def)
qed


text \<open>\<open>before asc a b\<close>: the key \<open>a\<close> may stand before the key \<open>b\<close> in the direction asked for.\<close>

definition before :: "bool \<Rightarrow> string \<Rightarrow> string \<Rightarrow> bool" where
  "before asc a b = (if asc then a \<le> b else b \<le> a)"

lemma compareStrings_before: "compareStrings a b asc \<longleftrightarrow> \<not> before asc a b"
  by (auto simp: compareStrings_def before_def)

lemma before_refl: "before asc a a"
  by (simp add: before_def)

lemma before_total: "\<not> before asc a b \<Longrightarrow> before asc b a"
  by (auto simp: before_def split: if_splits)

lemma before_trans: "before asc a b \<Longrightarrow> before asc b c \<Longrightarrow> before asc a c"
  by (auto simp: before_def split: if_splits)

subsection \<open>Slots as streams\<close>



text \<open>A value that a reader accepts as a record: a JSON object or \<^verbatim>\<open>null\<close>.\<close>

fun isRecord :: "json \<Rightarrow> bool" where
  "isRecord (JObj kvs) = True"
| "isRecord JNull = True"
| "isRecord _ = False"

fun gomap_of_json :: "json \<Rightarrow> gomap" where
  "gomap_of_json (JObj kvs) = Some kvs"
| "gomap_of_json _ = None"

lemma json_of_gomap_inverse: "isRecord v \<Longrightarrow> json_of_gomap (gomap_of_json v) = v"
  by (cases v) (simp_all add: json_of_gomap_def)

lemma drain_items:
  "allConvert um fs r \<Longrightarrow> fst (drain um fs r) = itemsOf um fs r"
proof (induction "itemsOf um fs r" arbitrary: fs r)
  case Nil
  from NextRecord_items(1) [OF Nil(2) Nil(1) [symmetric]] Nil(1) show ?case
    by (auto simp: drain.simps [of um fs r])
next
  case (Cons x xs)
  from NextRecord_items(2) [OF Cons.prems Cons.hyps(2) [symmetric], of fs] obtain r1 where
    n: "NextRecord um fs r = (Inr x, r1)" and i: "itemsOf um fs r1 = xs"
    and a: "allConvert um fs r1"
    by blast
  from Cons.hyps(1) [OF i [symmetric] a] n i Cons.hyps(2) [symmetric] show ?case
    by (cases "drain um fs r1") (simp add: drain.simps [of um fs r])
qed

text \<open>The reader over a container whose values the type read unmarshals.\<close>

lemma reader_over_container:
  assumes "readFile fs p = Some (container key (map enc out))" and "p \<noteq> []"
    and "\<forall>x \<in> set out. isRecord (enc x) \<and> um (enc x) = Inr x"
  shows "allConvert um fs (NewContentReader p key)"
    and "itemsOf um fs (NewContentReader p key) = out"
proof -
  let ?ms = "map (\<lambda>x. gomap_of_json (enc x)) out"
  have "map enc out = map json_of_gomap ?ms"
    using assms(3) by (simp add: json_of_gomap_inverse)
  with assms(1) have "readFile fs p = Some (container key (map json_of_gomap ?ms))" by simp
  from produced_container(1) [OF this] assms(2)
  have p: "pending fs (NewContentReader p key) = ?ms"
    by (simp add: pending_def NewContentReader_def NewMultiSourceContentReader_def)
  have c: "ConvertToStruct um (gomap_of_json (enc x)) = Inr x" if "x \<in> set out" for x
    using assms(3) that by (simp add: ConvertToStruct_def json_of_gomap_inverse)
  show "allConvert um fs (NewContentReader p key)"
    by (simp add: allConvert_def p list_all_iff c)
  show "itemsOf um fs (NewContentReader p key) = out"
    by (simp add: itemsOf_def p comp_def c map_idI)
qed

subsection \<open>One scan of the merge by calculated key\<close>

text \<open>\<open>sbefore asc a b\<close>: the key \<open>a\<close> stands strictly before the key \<open>b\<close> in the direction.\<close>

definition sbefore :: "bool \<Rightarrow> string \<Rightarrow> string \<Rightarrow> bool" where
  "sbefore asc a b \<longleftrightarrow> before asc a b \<and> a \<noteq> b"



lemma sbefore_trans2: "sbefore asc a b \<Longrightarrow> before asc b c \<Longrightarrow> sbefore asc a c"
  by (auto simp: sbefore_def before_def split: if_splits)
























subsection \<open>The merge by calculated key\<close>








subsection \<open>The split into sorted runs\<close>

















subsection \<open>The two phases together\<close>













section \<open>The merge of sortable items\<close>

text \<open>
  What the merge of \<^verbatim>\<open>MergeSortedReaders\<close> maintains, over the set \<open>A\<close> of the addresses
  of the readers it was given. The records left in each of these readers convert into
  items, sorted by their keys, and no reader is over the file \<open>p\<close> being written; the
  current item of a slot stands before every item left in the reader of the slot; and a
  reader that no slot points to any more has no item left. The items still to be written
  are the current items and the items left in the readers, each reader counted once.
\<close>

definition keyBefore :: "'s prototype \<Rightarrow> bool \<Rightarrow> 's \<Rightarrow> 's \<Rightarrow> bool" where
  "keyBefore proto asc x y = before asc (itemSortKey proto x) (itemSortKey proto y)"

lemma keyBefore_refl: "keyBefore proto asc x x"
  by (simp add: keyBefore_def before_refl)

lemma keyBefore_total: "\<not> keyBefore proto asc x y \<Longrightarrow> keyBefore proto asc y x"
  by (simp add: keyBefore_def before_total)

lemma keyBefore_trans: "keyBefore proto asc x y \<Longrightarrow> keyBefore proto asc y z \<Longrightarrow> keyBefore proto asc x z"
  unfolding keyBefore_def by (rule before_trans)

definition curs :: "('a option \<times> 'b) list \<Rightarrow> 'a list" where
  "curs slots = concat (map (\<lambda>sl. case fst sl of None \<Rightarrow> [] | Some x \<Rightarrow> [x]) slots)"

lemma curs_simps:
  "curs [] = []"
  "curs ((None, q) # slots) = curs slots"
  "curs ((Some x, q) # slots) = x # curs slots"
  "curs (xs @ ys) = curs xs @ curs ys"
  by (simp_all add: curs_def)

lemma set_curs: "set (curs slots) = {x. \<exists>sl \<in> set slots. fst sl = Some x}"
  by (induction slots) (auto simp: curs_def split: option.splits)

definition settled :: "'a option \<times> 'b option \<Rightarrow> bool" where
  "settled sl \<longleftrightarrow> (fst sl = None \<longrightarrow> snd sl = None)"

definition pulled :: "('a option \<times> nat option) option \<Rightarrow> 'a option \<times> nat option" where
  "pulled q = (case q of None \<Rightarrow> (None, None) | Some sl \<Rightarrow> sl)"

definition remaining ::
  "(json \<Rightarrow> error + 's) \<Rightarrow> filesys \<Rightarrow> nat set \<Rightarrow> store \<Rightarrow> ('s option \<times> nat option) list \<Rightarrow> 's multiset" where
  "remaining um fs A st slots = mset (curs slots) + (\<Sum>a\<in>A. mset (itemsOf um fs (st a)))"

definition readersOK :: "'s prototype \<Rightarrow> bool \<Rightarrow> filesys \<Rightarrow> string \<Rightarrow> nat set \<Rightarrow> store \<Rightarrow> bool" where
  "readersOK proto asc fs p A st \<longleftrightarrow>
     finite A
     \<and> (\<forall>a \<in> A. allConvert (unmarshalItem proto) fs (st a) \<and> p \<notin> set (filesPaths (st a))
           \<and> sorted_wrt (keyBefore proto asc) (itemsOf (unmarshalItem proto) fs (st a)))"

definition slotsOK ::
  "'s prototype \<Rightarrow> bool \<Rightarrow> filesys \<Rightarrow> nat set \<Rightarrow> store \<Rightarrow> ('s option \<times> nat option) list \<Rightarrow> bool" where
  "slotsOK proto asc fs A st slots \<longleftrightarrow>
     (\<forall>sl \<in> set slots. \<forall>a. snd sl = Some a \<longrightarrow>
        a \<in> A \<and> (\<forall>x. fst sl = Some x \<longrightarrow>
                   (\<forall>y \<in> set (itemsOf (unmarshalItem proto) fs (st a)). keyBefore proto asc x y)))"

definition covered ::
  "(json \<Rightarrow> error + 's) \<Rightarrow> filesys \<Rightarrow> nat set \<Rightarrow> store \<Rightarrow> ('s option \<times> nat option) list \<Rightarrow> bool" where
  "covered um fs A st slots \<longleftrightarrow>
     (\<forall>a \<in> A. (\<exists>sl \<in> set slots. snd sl = Some a) \<or> itemsOf um fs (st a) = [])"

definition mergeInv ::
  "'s prototype \<Rightarrow> bool \<Rightarrow> filesys \<Rightarrow> string \<Rightarrow> nat set \<Rightarrow> store \<Rightarrow> ('s option \<times> nat option) list \<Rightarrow> bool" where
  "mergeInv proto asc fs p A st slots \<longleftrightarrow>
     readersOK proto asc fs p A st \<and> slotsOK proto asc fs A st slots
     \<and> covered (unmarshalItem proto) fs A st slots"

lemma NextRecord_um_drained:
  assumes "pending fs r = []" and "NextRecord um fs r = (res, r1)"
  shows "isl res \<and> filesPaths r1 = filesPaths r \<and> pending fs1 r1 = []"
proof -
  consider (e) "empty r" | (f) "\<not> empty r" "once r" | (u) "\<not> empty r" "\<not> once r"
    by blast
  then show ?thesis
  proof cases
    case e
    with assms show ?thesis by (auto simp: NextRecord_def pending_def)
  next
    case f
    with assms show ?thesis by (auto simp: NextRecord_fired pending_def)
  next
    case u
    with assms(1) have p: "dataChannel r = []" "produced fs (filesPaths r) (arrayKey r) = []"
      by (simp_all add: pending_def)
    with u assms(2) show ?thesis
      by (auto simp: NextRecord_unfired [OF u, of _ fs fs] NextRecord_fired pending_def)
  qed
qed

text \<open>A reader of the store replaced by itself with fewer items left.\<close>

lemma readersOK_shrink:
  assumes "readersOK proto asc fs p A st" and "a \<in> A"
    and "allConvert (unmarshalItem proto) fs r1" and "filesPaths r1 = filesPaths (st a)"
    and "sorted_wrt (keyBefore proto asc) (itemsOf (unmarshalItem proto) fs r1)"
  shows "readersOK proto asc fs p A (st(a := r1))"
  using assms by (simp add: readersOK_def)

lemma slotsOK_shrink:
  assumes "slotsOK proto asc fs A st slots"
    and "set (itemsOf (unmarshalItem proto) fs r1) \<subseteq> set (itemsOf (unmarshalItem proto) fs (st a))"
  shows "slotsOK proto asc fs A (st(a := r1)) slots"
  unfolding slotsOK_def
proof (intro ballI allI impI)
  fix sl b
  assume sl: "sl \<in> set slots" "snd sl = Some b"
  with assms(1) have b: "b \<in> A"
    and k: "\<forall>x. fst sl = Some x \<longrightarrow>
        (\<forall>y \<in> set (itemsOf (unmarshalItem proto) fs (st b)). keyBefore proto asc x y)"
    unfolding slotsOK_def by blast+
  have "set (itemsOf (unmarshalItem proto) fs ((st(a := r1)) b))
      \<subseteq> set (itemsOf (unmarshalItem proto) fs (st b))"
    using assms(2) by simp
  with k b show "b \<in> A \<and> (\<forall>x. fst sl = Some x \<longrightarrow>
      (\<forall>y \<in> set (itemsOf (unmarshalItem proto) fs ((st(a := r1)) b)). keyBefore proto asc x y))"
    by blast
qed

lemma slotsOK_replace:
  assumes "slotsOK proto asc fs A st (pre @ sl # post)"
    and "\<forall>a. snd sl1 = Some a \<longrightarrow>
        a \<in> A \<and> (\<forall>x. fst sl1 = Some x \<longrightarrow>
                   (\<forall>y \<in> set (itemsOf (unmarshalItem proto) fs (st a)). keyBefore proto asc x y))"
  shows "slotsOK proto asc fs A st (pre @ sl1 # post)"
  using assms unfolding slotsOK_def by auto

lemma covered_replace:
  assumes "covered um fs A st (pre @ sl # post)"
    and "snd sl1 = snd sl \<or> (\<forall>a. snd sl = Some a \<longrightarrow> itemsOf um fs (st a) = [])"
  shows "covered um fs A st (pre @ sl1 # post)"
  unfolding covered_def
proof
  fix a
  assume "a \<in> A"
  with assms(1) consider (s) sl0 where "sl0 \<in> set (pre @ sl # post)" "snd sl0 = Some a"
    | (n) "itemsOf um fs (st a) = []"
    unfolding covered_def by blast
  then show "(\<exists>sl\<in>set (pre @ sl1 # post). snd sl = Some a) \<or> itemsOf um fs (st a) = []"
  proof cases
    case s
    show ?thesis
    proof (cases "sl0 = sl")
      case True
      with s(2) assms(2) show ?thesis by auto
    next
      case False
      with s show ?thesis by auto
    qed
  next
    case n
    then show ?thesis by simp
  qed
qed

lemma covered_store:
  assumes "covered um fs A st slots"
    and "\<forall>b \<in> A. itemsOf um fs (st b) = [] \<longrightarrow> itemsOf um fs (st1 b) = []"
  shows "covered um fs A st1 slots"
  using assms unfolding covered_def by blast

lemma remaining_store:
  assumes "finite A" and "a \<in> A"
    and "mset (curs slots1) + mset (itemsOf um fs r1) = mset (curs slots) + mset (itemsOf um fs (st a))"
  shows "remaining um fs A (st(a := r1)) slots1 = remaining um fs A st slots"
proof -
  let ?f = "\<lambda>b. mset (itemsOf um fs (st b))"
  let ?g = "\<lambda>b. mset (itemsOf um fs ((st(a := r1)) b))"
  have "sum ?g (A - {a}) = sum ?f (A - {a})" by (rule sum.cong) simp_all
  moreover have "sum ?f A = ?f a + sum ?f (A - {a})" by (rule sum.remove [OF assms(1,2)])
  moreover have "sum ?g A = ?g a + sum ?g (A - {a})" by (rule sum.remove [OF assms(1,2)])
  ultimately have "mset (curs slots1) + sum ?g A = mset (curs slots) + sum ?f A"
    using assms(3) by (simp add: ac_simps)
  then show ?thesis by (simp add: remaining_def)
qed

text \<open>One slot of the scan: reading the next item into a slot that has none.\<close>

lemma pullItem_step:
  assumes "pullItem proto fs st sl = (Inr q, st1)"
    and "mergeInv proto asc fs p A st (pre @ sl # post)"
  shows "mergeInv proto asc fs p A st1 (pre @ pulled q # post)
    \<and> remaining (unmarshalItem proto) fs A st1 (pre @ pulled q # post)
        = remaining (unmarshalItem proto) fs A st (pre @ sl # post)
    \<and> settled (pulled q)
    \<and> (\<forall>b. b \<notin> A \<longrightarrow> st1 b = st b) \<and> (\<forall>b. filesPaths (st1 b) = filesPaths (st b))"
proof (cases "\<exists>a. sl = (None, Some a)")
  case False
  then have "pullItem proto fs st sl = (Inr (Some sl), st)"
    by (cases "(proto, fs, st, sl)" rule: pullItem.cases) auto
  with assms(1) have q: "q = Some sl" "st1 = st" by simp_all
  from False have "settled sl" by (cases sl; cases "fst sl"; cases "snd sl") (auto simp: settled_def)
  with q assms(2) show ?thesis by (simp add: pulled_def)
next
  case True
  then obtain a where sl: "sl = (None, Some a)" by blast
  let ?um = "unmarshalItem proto"
  from assms(2) have ro: "readersOK proto asc fs p A st"
    and so: "slotsOK proto asc fs A st (pre @ sl # post)"
    and co: "covered ?um fs A st (pre @ sl # post)"
    by (simp_all add: mergeInv_def)
  from so sl have a: "a \<in> A" by (auto simp: slotsOK_def)
  from ro have fin: "finite A" by (simp add: readersOK_def)
  from ro a have ac: "allConvert ?um fs (st a)"
    and srt: "sorted_wrt (keyBefore proto asc) (itemsOf ?um fs (st a))"
    by (simp_all add: readersOK_def)
  obtain res r1 where n: "NextRecord ?um fs (st a) = (res, r1)"
    by (cases "NextRecord ?um fs (st a)")
  show ?thesis
  proof (cases "itemsOf ?um fs (st a)")
    case Nil
    then have "pending fs (st a) = []" by (simp add: itemsOf_def)
    from NextRecord_um_drained [OF this n, of fs] have
      r: "isl res" "filesPaths r1 = filesPaths (st a)" "pending fs r1 = []"
      by simp_all
    from r(3) have i1: "itemsOf ?um fs r1 = []" and ac1: "allConvert ?um fs r1"
      by (simp_all add: itemsOf_def allConvert_def)
    from assms(1) sl n r(1) have q: "q = None" "st1 = st(a := r1)"
      by (cases res; auto)+
    have ro1: "readersOK proto asc fs p A st1"
      unfolding q by (rule readersOK_shrink [OF ro a ac1 r(2)]) (simp add: i1)
    have "slotsOK proto asc fs A st1 (pre @ sl # post)"
      unfolding q by (rule slotsOK_shrink [OF so]) (simp add: i1)
    then have so1: "slotsOK proto asc fs A st1 (pre @ (None, None) # post)"
      by (rule slotsOK_replace) simp
    have "covered ?um fs A st1 (pre @ sl # post)"
      by (rule covered_store [OF co]) (simp add: q i1)
    then have co1: "covered ?um fs A st1 (pre @ (None, None) # post)"
      by (rule covered_replace) (simp add: sl q i1)
    have "remaining ?um fs A st1 (pre @ (None, None) # post) = remaining ?um fs A st (pre @ sl # post)"
      unfolding q by (rule remaining_store [OF fin a]) (simp add: curs_simps sl i1 Nil)
    with ro1 so1 co1 q r(2) a show ?thesis
      by (simp add: mergeInv_def pulled_def settled_def)
  next
    case (Cons x xs)
    from NextRecord_items(2) [OF ac Cons, of fs] n have
      r: "res = Inr x" "itemsOf ?um fs r1 = xs" "allConvert ?um fs r1"
        "filesPaths r1 = filesPaths (st a)"
      by auto
    from assms(1) sl n r(1) have q: "q = Some (Some x, Some a)" "st1 = st(a := r1)"
      by (auto split: if_splits)
    from srt Cons have sx: "sorted_wrt (keyBefore proto asc) xs"
      and hx: "\<forall>y \<in> set xs. keyBefore proto asc x y"
      by simp_all
    have ro1: "readersOK proto asc fs p A st1"
      unfolding q by (rule readersOK_shrink [OF ro a r(3) r(4)]) (simp add: r(2) sx)
    have "slotsOK proto asc fs A st1 (pre @ sl # post)"
      unfolding q by (rule slotsOK_shrink [OF so]) (auto simp: r(2) Cons)
    then have so1: "slotsOK proto asc fs A st1 (pre @ (Some x, Some a) # post)"
      by (rule slotsOK_replace) (simp add: a q r(2) hx)
    have "covered ?um fs A st1 (pre @ sl # post)"
      by (rule covered_store [OF co]) (auto simp: q Cons)
    then have co1: "covered ?um fs A st1 (pre @ (Some x, Some a) # post)"
      by (rule covered_replace) (simp add: sl)
    have "remaining ?um fs A st1 (pre @ (Some x, Some a) # post)
        = remaining ?um fs A st (pre @ sl # post)"
      unfolding q by (rule remaining_store [OF fin a]) (simp add: curs_simps sl r(2) Cons)
    with ro1 so1 co1 q r(4) a show ?thesis
      by (simp add: mergeInv_def pulled_def settled_def)
  qed
qed

text \<open>
  The candidate of a scan over the slots it has passed: there is none when no slot has a
  current item; otherwise it is the current item of the slot of its index, and it stands
  before the current item of every slot.
\<close>

definition candOK ::
  "'s prototype \<Rightarrow> bool \<Rightarrow> 's option \<Rightarrow> nat \<Rightarrow> ('s option \<times> nat option) list \<Rightarrow> bool" where
  "candOK proto asc c s slots \<longleftrightarrow>
     (case c of
        None \<Rightarrow> curs slots = []
      | Some x \<Rightarrow> s < length slots \<and> fst (slots ! s) = Some x
                  \<and> (\<forall>y \<in> set (curs slots). keyBefore proto asc x y))"

lemma candOK_skip: "candOK proto asc c s pre \<Longrightarrow> candOK proto asc c s (pre @ [(None, q)])"
  by (auto simp: candOK_def curs_simps nth_append split: option.splits)

lemma candOK_snoc:
  assumes "candOK proto asc cand sm pre"
    and "replace = (cand = None
        \<or> (cur \<noteq> None \<and> compareStrings (itemSortKey proto (the cand)) (itemSortKey proto (the cur)) asc))"
  shows "candOK proto asc (if replace then cur else cand) (if replace then length pre else sm)
           (pre @ [(cur, file)])"
proof (cases cur)
  case None
  with assms show ?thesis
    by (cases cand) (auto simp: candOK_def curs_simps nth_append)
next
  case (Some y)
  show ?thesis
  proof (cases cand)
    case None
    with assms Some show ?thesis
      by (auto simp: candOK_def curs_simps nth_append keyBefore_refl)
  next
    case c: (Some x)
    from assms(1) c have x: "sm < length pre" "fst (pre ! sm) = Some x"
      "\<forall>z \<in> set (curs pre). keyBefore proto asc x z"
      by (simp_all add: candOK_def)
    have r: "replace \<longleftrightarrow> \<not> keyBefore proto asc x y"
      using assms(2) c Some by (simp add: compareStrings_before keyBefore_def)
    show ?thesis
    proof (cases replace)
      case True
      with r have "keyBefore proto asc y x" by (simp add: keyBefore_total)
      with x(3) have "\<forall>z \<in> set (curs pre). keyBefore proto asc y z"
        by (blast intro: keyBefore_trans)
      with True Some show ?thesis
        by (auto simp: candOK_def curs_simps nth_append keyBefore_refl)
    next
      case False
      with r x c Some show ?thesis
        by (auto simp: candOK_def curs_simps nth_append)
    qed
  qed
qed

lemma mergeScanItems_step:
  assumes "mergeScanItems proto asc fs st cand sm (length pre) post = (Inr (c, s, post1), st1)"
    and "mergeInv proto asc fs p A st (pre @ post)"
    and "list_all settled pre" and "candOK proto asc cand sm pre"
  shows "mergeInv proto asc fs p A st1 (pre @ post1)
    \<and> remaining (unmarshalItem proto) fs A st1 (pre @ post1)
        = remaining (unmarshalItem proto) fs A st (pre @ post)
    \<and> list_all settled (pre @ post1) \<and> candOK proto asc c s (pre @ post1)
    \<and> (\<forall>b. b \<notin> A \<longrightarrow> st1 b = st b) \<and> (\<forall>b. filesPaths (st1 b) = filesPaths (st b))"
  using assms
proof (induction post arbitrary: pre st cand sm post1)
  case Nil
  then show ?case by simp
next
  case (Cons sl rest)
  let ?um = "unmarshalItem proto"
  obtain pq st0 where pq0: "pullItem proto fs st sl = (pq, st0)"
    by (cases "pullItem proto fs st sl")
  with Cons.prems(1) obtain q where pq: "pullItem proto fs st sl = (Inr q, st0)"
    by (cases pq) auto
  from pullItem_step [OF pq Cons.prems(2)] have
    inv0: "mergeInv proto asc fs p A st0 ((pre @ [pulled q]) @ rest)"
    and rem0: "remaining ?um fs A st0 ((pre @ [pulled q]) @ rest)
        = remaining ?um fs A st (pre @ sl # rest)"
    and set0: "settled (pulled q)"
    and un0: "\<forall>b. b \<notin> A \<longrightarrow> st0 b = st b" and fp0: "\<forall>b. filesPaths (st0 b) = filesPaths (st b)"
    by simp_all
  from Cons.prems(3) set0 have sp: "list_all settled (pre @ [pulled q])" by simp
  have len: "length (pre @ [pulled q]) = Suc (length pre)" by simp
  show ?case
  proof (cases q)
    case None
    with Cons.prems(1) pq obtain rest1 where
      r: "mergeScanItems proto asc fs st0 cand sm (Suc (length pre)) rest = (Inr (c, s, rest1), st1)"
      and s1: "post1 = (None, None) # rest1"
      by (auto split: prod.splits sum.splits)
    have ck: "candOK proto asc cand sm (pre @ [pulled q])"
      using candOK_skip [OF Cons.prems(4)] None by (simp add: pulled_def)
    from Cons.IH [OF r [folded len] inv0 sp ck] rem0 un0 fp0 s1 None show ?thesis
      by (simp add: pulled_def)
  next
    case (Some sl0)
    obtain cur rd where sl0: "sl0 = (cur, rd)" by (cases sl0)
    define replace where "replace = (cand = None
        \<or> (cur \<noteq> None \<and> compareStrings (itemSortKey proto (the cand)) (itemSortKey proto (the cur)) asc))"
    from Cons.prems(1) pq Some sl0 obtain rest1 where
      r: "mergeScanItems proto asc fs st0 (if replace then cur else cand)
            (if replace then length pre else sm) (Suc (length pre)) rest = (Inr (c, s, rest1), st1)"
      and s1: "post1 = (cur, rd) # rest1"
      unfolding replace_def by (auto simp: Let_def split: prod.splits sum.splits)
    have ck: "candOK proto asc (if replace then cur else cand) (if replace then length pre else sm)
        (pre @ [pulled q])"
      using candOK_snoc [OF Cons.prems(4) replace_def] Some sl0 by (simp add: pulled_def)
    from Cons.IH [OF r [folded len] inv0 sp ck] rem0 un0 fp0 s1 Some sl0 show ?thesis
      by (simp add: pulled_def)
  qed
qed

lemma in_sum_mset:
  "finite A \<Longrightarrow> y \<in># (\<Sum>a\<in>A. f a) \<Longrightarrow> \<exists>a \<in> A. y \<in># f a"
  by (induction A rule: finite_induct) auto

lemma in_remaining:
  assumes "finite A" and "y \<in># remaining um fs A st slots"
  shows "y \<in> set (curs slots) \<or> (\<exists>a \<in> A. y \<in> set (itemsOf um fs (st a)))"
proof -
  from assms(2) have "y \<in># mset (curs slots) \<or> y \<in># (\<Sum>a\<in>A. mset (itemsOf um fs (st a)))"
    by (simp add: remaining_def)
  with in_sum_mset [OF assms(1), of y "\<lambda>a. mset (itemsOf um fs (st a))"] show ?thesis
    by auto
qed

lemma mergeInv_sameElsewhere:
  assumes "sameElsewhere p fs fs1" and "mergeInv proto asc fs p A st slots"
  shows "mergeInv proto asc fs1 p A st slots"
    and "remaining (unmarshalItem proto) fs1 A st slots = remaining (unmarshalItem proto) fs A st slots"
proof -
  let ?um = "unmarshalItem proto"
  from assms(2) have ro: "readersOK proto asc fs p A st"
    and so: "slotsOK proto asc fs A st slots" and co: "covered ?um fs A st slots"
    by (simp_all add: mergeInv_def)
  have pe: "pending fs1 (st a) = pending fs (st a)" if "a \<in> A" for a
    using ro that pending_sameElsewhere [OF assms(1)] by (simp add: readersOK_def)
  then have it: "itemsOf ?um fs1 (st a) = itemsOf ?um fs (st a)" if "a \<in> A" for a
    using that by (simp add: itemsOf_def)
  have al: "allConvert ?um fs1 (st a) = allConvert ?um fs (st a)" if "a \<in> A" for a
    using that pe by (simp add: allConvert_def)
  have "readersOK proto asc fs1 p A st"
    using ro it al by (simp add: readersOK_def)
  moreover have "slotsOK proto asc fs1 A st slots"
    using so it unfolding slotsOK_def by (metis (no_types, lifting))
  moreover have "covered ?um fs1 A st slots"
    using co it unfolding covered_def by metis
  ultimately show "mergeInv proto asc fs1 p A st slots" by (simp add: mergeInv_def)
  have "(\<Sum>a\<in>A. mset (itemsOf ?um fs1 (st a))) = (\<Sum>a\<in>A. mset (itemsOf ?um fs (st a)))"
    by (rule sum.cong) (simp_all add: it)
  then show "remaining ?um fs1 A st slots = remaining ?um fs A st slots"
    by (simp add: remaining_def)
qed

text \<open>Taking the item written out of its slot.\<close>

lemma clear_written:
  assumes "mergeInv proto asc fs p A st slots" and "s < length slots" and "fst (slots ! s) = Some x"
  shows "mergeInv proto asc fs p A st (slots[s := (None, snd (slots ! s))])"
    and "remaining (unmarshalItem proto) fs A st (slots[s := (None, snd (slots ! s))]) + {#x#}
         = remaining (unmarshalItem proto) fs A st slots"
proof -
  let ?um = "unmarshalItem proto"
  let ?pre = "take s slots" and ?post = "drop (Suc s) slots"
  obtain q where sl: "slots ! s = (Some x, q)" using assms(3) by (cases "slots ! s") simp
  have d: "slots = ?pre @ (Some x, q) # ?post"
    using id_take_nth_drop [OF assms(2)] sl by simp
  have u: "slots[s := (None, snd (slots ! s))] = ?pre @ (None, q) # ?post"
    using upd_conv_take_nth_drop [OF assms(2)] sl by simp
  from assms(1) have ro: "readersOK proto asc fs p A st"
    and so: "slotsOK proto asc fs A st (?pre @ (Some x, q) # ?post)"
    and co: "covered ?um fs A st (?pre @ (Some x, q) # ?post)"
    unfolding mergeInv_def using d by simp_all
  have "slotsOK proto asc fs A st (?pre @ (None, q) # ?post)"
    by (rule slotsOK_replace [OF so]) (use so in \<open>auto simp: slotsOK_def\<close>)
  moreover have "covered ?um fs A st (?pre @ (None, q) # ?post)"
    by (rule covered_replace [OF co]) simp
  ultimately show "mergeInv proto asc fs p A st (slots[s := (None, snd (slots ! s))])"
    using ro by (simp only: u mergeInv_def)
  have "mset (curs (?pre @ (None, q) # ?post)) + {#x#} = mset (curs (?pre @ (Some x, q) # ?post))"
    by (simp add: curs_simps)
  then have "remaining ?um fs A st (?pre @ (None, q) # ?post) + {#x#}
      = remaining ?um fs A st (?pre @ (Some x, q) # ?post)"
    by (simp add: remaining_def)
  then show "remaining ?um fs A st (slots[s := (None, snd (slots ! s))]) + {#x#}
      = remaining ?um fs A st slots"
    by (simp only: u d [symmetric])
qed

text \<open>After a scan the candidate stands before every item still to be written.\<close>

lemma candidate_first:
  assumes "mergeInv proto asc fs p A st slots" and "list_all settled slots"
    and "candOK proto asc (Some x) s slots"
  shows "\<forall>y \<in># remaining (unmarshalItem proto) fs A st slots. keyBefore proto asc x y"
proof
  fix y
  let ?um = "unmarshalItem proto"
  assume y: "y \<in># remaining ?um fs A st slots"
  from assms(1) have fin: "finite A" and so: "slotsOK proto asc fs A st slots"
    and co: "covered ?um fs A st slots"
    by (simp_all add: mergeInv_def readersOK_def)
  from assms(3) have c: "\<forall>z \<in> set (curs slots). keyBefore proto asc x z"
    by (simp add: candOK_def)
  from in_remaining [OF fin y] show "keyBefore proto asc x y"
  proof
    assume "y \<in> set (curs slots)"
    with c show ?thesis by simp
  next
    assume "\<exists>a \<in> A. y \<in> set (itemsOf ?um fs (st a))"
    then obtain a where a: "a \<in> A" "y \<in> set (itemsOf ?um fs (st a))" by blast
    with co obtain sl where sl: "sl \<in> set slots" "snd sl = Some a"
      by (auto simp: covered_def)
    with assms(2) obtain z where z: "fst sl = Some z"
      by (cases "fst sl") (auto simp: list_all_iff settled_def)
    with sl have "z \<in> set (curs slots)" by (auto simp: set_curs)
    with c have "keyBefore proto asc x z" by simp
    moreover from so sl z a(2) have "keyBefore proto asc z y" by (auto simp: slotsOK_def)
    ultimately show ?thesis by (rule keyBefore_trans)
  qed
qed

text \<open>When a scan finds no candidate, nothing is left.\<close>

lemma nothing_left:
  assumes "mergeInv proto asc fs p A st slots" and "list_all settled slots"
    and "candOK proto asc None s slots"
  shows "remaining (unmarshalItem proto) fs A st slots = {#}"
    and "\<forall>a \<in> A. pending fs (st a) = []"
proof -
  let ?um = "unmarshalItem proto"
  from assms(3) have c: "curs slots = []" by (simp add: candOK_def)
  have "fst sl = None" if "sl \<in> set slots" for sl
  proof (cases "fst sl")
    case None
    then show ?thesis .
  next
    case (Some x)
    with that have "x \<in> set (curs slots)" by (auto simp: set_curs)
    with c show ?thesis by simp
  qed
  with assms(2) have n: "\<forall>sl \<in> set slots. snd sl = None"
    by (auto simp: list_all_iff settled_def)
  from assms(1) have "covered ?um fs A st slots" by (simp add: mergeInv_def)
  with n have e: "\<forall>a \<in> A. itemsOf ?um fs (st a) = []" by (auto simp: covered_def)
  then show "\<forall>a \<in> A. pending fs (st a) = []" by (simp add: itemsOf_def)
  from e c show "remaining ?um fs A st slots = {#}" by (simp add: remaining_def)
qed

lemma mergeItemsLoop_correct:
  assumes "mergeItemsLoop proto asc fs st w slots = (None, w2, fs2, st2)"
    and "writing w fs k (map (marshalItem proto) ws)"
    and "mergeInv proto asc fs (outputFile w) A st slots"
    and "sorted_wrt (keyBefore proto asc) ws"
    and "\<forall>x \<in> set ws. \<forall>y \<in># remaining (unmarshalItem proto) fs A st slots. keyBefore proto asc x y"
  shows "\<exists>out. writing w2 fs2 k (map (marshalItem proto) (ws @ out))
      \<and> outputFile w2 = outputFile w \<and> sameElsewhere (outputFile w) fs fs2
      \<and> sorted_wrt (keyBefore proto asc) (ws @ out)
      \<and> mset out = remaining (unmarshalItem proto) fs A st slots
      \<and> (\<forall>a \<in> A. pending fs2 (st2 a) = [])
      \<and> (\<forall>b. b \<notin> A \<longrightarrow> st2 b = st b) \<and> (\<forall>b. filesPaths (st2 b) = filesPaths (st b))"
  using assms
proof (induction proto asc fs st w slots arbitrary: ws rule: mergeItemsLoop.induct)
  case (1 proto asc fs st w slots)
  let ?um = "unmarshalItem proto"
  let ?p = "outputFile w"
  obtain r st1 where sc0: "mergeScanItems proto asc fs st None 0 0 slots = (r, st1)"
    by (cases "mergeScanItems proto asc fs st None 0 0 slots")
  with "1.prems"(1) obtain c s slots1 where
    sc: "mergeScanItems proto asc fs st None 0 0 slots = (Inr (c, s, slots1), st1)"
    by (cases r) (auto simp: mergeItemsLoop.simps [of proto asc fs st w slots])
  have "candOK proto asc None 0 []" by (simp add: candOK_def curs_simps)
  with mergeScanItems_step [of proto asc fs st None 0 "[]" slots c s slots1 st1 ?p A]
    sc "1.prems"(3)
  have inv1: "mergeInv proto asc fs ?p A st1 slots1"
    and rem1: "remaining ?um fs A st1 slots1 = remaining ?um fs A st slots"
    and set1: "list_all settled slots1" and ck: "candOK proto asc c s slots1"
    and un1: "\<forall>b. b \<notin> A \<longrightarrow> st1 b = st b" and fp1: "\<forall>b. filesPaths (st1 b) = filesPaths (st b)"
    by simp_all
  show ?case
  proof (cases c)
    case None
    from "1.prems"(1) sc None have e: "w2 = w" "fs2 = fs" "st2 = st1"
      by (simp_all add: mergeItemsLoop.simps [of proto asc fs st w slots])
    from nothing_left [OF inv1 set1 ck [unfolded None]] rem1 have
      "remaining ?um fs A st slots = {#}" "\<forall>a \<in> A. pending fs (st1 a) = []"
      by simp_all
    with e "1.prems"(2,4) un1 fp1 show ?thesis
      by (intro exI [of _ "[]"]) (simp add: sameElsewhere_refl)
  next
    case (Some x)
    from ck Some have s: "s < length slots1" and hx: "fst (slots1 ! s) = Some x"
      by (simp_all add: candOK_def)
    obtain w1 fs1 where wr: "Write (marshalItem proto x) w fs = (w1, fs1)"
      by (cases "Write (marshalItem proto x) w fs")
    let ?slots' = "slots1[s := (None, snd (slots1 ! s))]"
    from "1.prems"(1) sc Some wr have
      lp: "mergeItemsLoop proto asc fs1 st1 w1 ?slots' = (None, w2, fs2, st2)"
      by (simp add: mergeItemsLoop.simps [of proto asc fs st w slots])
    from Write_writing [OF "1.prems"(2) wr] have
      w1: "writing w1 fs1 k (map (marshalItem proto) (ws @ [x]))" and o1: "outputFile w1 = ?p"
      and se: "sameElsewhere ?p fs fs1"
      by simp_all
    note cw = clear_written [OF inv1 s hx]
    note tr = mergeInv_sameElsewhere [OF se cw(1)]
    have inv2: "mergeInv proto asc fs1 (outputFile w1) A st1 ?slots'"
      using tr(1) o1 by simp
    have first: "\<forall>y \<in># remaining ?um fs A st1 slots1. keyBefore proto asc x y"
      by (rule candidate_first [OF inv1 set1 ck [unfolded Some]])
    have "x \<in># remaining ?um fs A st1 slots1"
      unfolding cw(2) [symmetric] by simp
    then have xin: "x \<in># remaining ?um fs A st slots"
      by (simp only: rem1)
    have sub: "y \<in># remaining ?um fs A st1 slots1" if "y \<in># remaining ?um fs1 A st1 ?slots'" for y
      using that unfolding tr(2) cw(2) [symmetric] by simp
    have srt: "sorted_wrt (keyBefore proto asc) (ws @ [x])"
      using "1.prems"(4,5) xin by (simp add: sorted_wrt_append)
    have bef: "\<forall>z \<in> set (ws @ [x]). \<forall>y \<in># remaining ?um fs1 A st1 ?slots'. keyBefore proto asc z y"
      using "1.prems"(5) first sub rem1 by auto
    from "1.IH" [OF sc [symmetric] refl refl Some refl wr [symmetric] lp w1 inv2 srt bef]
    obtain out where out: "writing w2 fs2 k (map (marshalItem proto) ((ws @ [x]) @ out))"
      "outputFile w2 = outputFile w1" "sameElsewhere (outputFile w1) fs1 fs2"
      "sorted_wrt (keyBefore proto asc) ((ws @ [x]) @ out)"
      "mset out = remaining ?um fs1 A st1 ?slots'"
      "\<forall>a \<in> A. pending fs2 (st2 a) = []"
      "\<forall>b. b \<notin> A \<longrightarrow> st2 b = st1 b" "\<forall>b. filesPaths (st2 b) = filesPaths (st1 b)"
      by blast
    have "mset (x # out) = remaining ?um fs A st slots"
      using out(5) tr(2) cw(2) rem1 by simp
    with out o1 se un1 fp1 show ?thesis
      by (intro exI [of _ "x # out"]) (auto intro: sameElsewhere_trans)
  qed
qed

lemma sum_over_pointers:
  assumes "distinct ps"
  shows "(\<Sum>a\<in>Some -` set ps. mset (g a))
       = mset (concat (map (\<lambda>p. case p of None \<Rightarrow> [] | Some a \<Rightarrow> g a) ps))"
  using assms
proof (induction ps)
  case Nil
  then show ?case by simp
next
  case (Cons p ps)
  show ?case
  proof (cases p)
    case None
    then have "Some -` set (p # ps) = Some -` set ps" by auto
    with Cons None show ?thesis by simp
  next
    case (Some a)
    with Cons.prems have n: "a \<notin> Some -` set ps" by simp
    have f: "finite (Some -` set ps)" by (rule finite_vimageI) simp_all
    have "Some -` set (p # ps) = insert a (Some -` set ps)" using Some by auto
    with Cons Some sum.insert [OF f n, of "\<lambda>a. mset (g a)"] show ?thesis by simp
  qed
qed

lemma MergeSortedReaders_written:
  assumes "MergeSortedReaders proto rs asc st fs = ((Some out, None), fs', st')"
    and "\<forall>a. Some a \<in> set rs \<longrightarrow>
          allConvert (unmarshalItem proto) fs (st a) \<and> freshPath fs \<notin> set (filesPaths (st a))
          \<and> sorted_wrt (keyBefore proto asc) (itemsOf (unmarshalItem proto) fs (st a))"
    and "rs \<noteq> []"
  shows "\<exists>items. out = NewContentReader (freshPath fs) DefaultKey
      \<and> readFile fs' (freshPath fs) = Some (container DefaultKey (map (marshalItem proto) items))
      \<and> sorted_wrt (keyBefore proto asc) items
      \<and> mset items = (\<Sum>a\<in>Some -` set rs. mset (itemsOf (unmarshalItem proto) fs (st a)))
      \<and> (\<forall>a. Some a \<in> set rs \<longrightarrow> pending fs' (st' a) = [] \<and> filesPaths (st' a) = filesPaths (st a))
      \<and> (\<forall>a. Some a \<notin> set rs \<longrightarrow> st' a = st a)"
proof -
  let ?um = "unmarshalItem proto"
  let ?slots = "map (\<lambda>r. (None, r)) rs"
  let ?A = "Some -` set rs"
  let ?p = "freshPath fs"
  from assms(1,3) obtain w fs1 where nw: "NewContentWriter DefaultKey fs = (Inr w, fs1)"
    by (auto simp: MergeSortedReaders_def split: prod.splits sum.splits)
  from NewContentWriter_writing [OF nw] have o: "outputFile w = ?p"
    and wr: "writing w fs1 DefaultKey []" and se: "sameElsewhere ?p fs fs1"
    by simp_all
  from assms(1,3) nw obtain w2 fs2 ce w3 where
    ml: "mergeItemsLoop proto asc fs1 st w ?slots = (None, w2, fs2, st')"
    and cl: "CloseWriter w2 fs2 = (ce, w3, fs')"
    and out: "out = NewContentReader (GetFilePath w2) (GetArrayKey w2)"
    by (auto simp: MergeSortedReaders_def split: prod.splits option.splits)
  have fin: "finite ?A" by (rule finite_vimageI) simp_all
  have "readersOK proto asc fs ?p ?A st"
    using assms(2) fin by (simp add: readersOK_def)
  moreover have "slotsOK proto asc fs ?A st ?slots"
    by (auto simp: slotsOK_def)
  moreover have "covered ?um fs ?A st ?slots"
    by (force simp: covered_def)
  ultimately have inv: "mergeInv proto asc fs ?p ?A st ?slots"
    by (simp add: mergeInv_def)
  note tr = mergeInv_sameElsewhere [OF se inv]
  have cs: "curs ?slots = []" by (induction rs) (simp_all add: curs_simps)
  have rem: "remaining ?um fs1 ?A st ?slots = (\<Sum>a\<in>?A. mset (itemsOf ?um fs (st a)))"
    unfolding tr(2) by (simp add: remaining_def cs)
  have wr0: "writing w fs1 DefaultKey (map (marshalItem proto) [])" using wr by simp
  have inv1: "mergeInv proto asc fs1 (outputFile w) ?A st ?slots" using tr(1) o by simp
  from mergeItemsLoop_correct [OF ml wr0 inv1] obtain items where
    it: "writing w2 fs2 DefaultKey (map (marshalItem proto) ([] @ items))"
      "outputFile w2 = outputFile w" "sameElsewhere (outputFile w) fs1 fs2"
      "sorted_wrt (keyBefore proto asc) ([] @ items)"
      "mset items = remaining ?um fs1 ?A st ?slots"
      "\<forall>a \<in> ?A. pending fs2 (st' a) = []"
      "\<forall>b. b \<notin> ?A \<longrightarrow> st' b = st b" "\<forall>b. filesPaths (st' b) = filesPaths (st b)"
    by auto
  from CloseWriter_writing [OF it(1) cl] have
    c: "readFile fs' (outputFile w2) = Some (container DefaultKey (map (marshalItem proto) ([] @ items)))"
    and se3: "sameElsewhere (outputFile w2) fs2 fs'"
    by simp_all
  from it(1) have k: "cwArrayKey w2 = DefaultKey" by (simp add: writing_def)
  have o2: "outputFile w2 = ?p" using it(2) o by simp
  have dr: "pending fs' (st' a) = []" if "Some a \<in> set rs" for a
  proof -
    from that assms(2) it(8) have "?p \<notin> set (filesPaths (st' a))" by simp
    from pending_sameElsewhere [OF se3 [unfolded o2] this] it(6) that show ?thesis by simp
  qed
  have "out = NewContentReader ?p DefaultKey"
    using out o2 k by (simp add: GetFilePath_def GetArrayKey_def)
  moreover have "readFile fs' ?p = Some (container DefaultKey (map (marshalItem proto) items))"
    using c o2 by simp
  moreover have "sorted_wrt (keyBefore proto asc) items" using it(4) by simp
  moreover have "mset items = (\<Sum>a\<in>?A. mset (itemsOf ?um fs (st a)))"
    using it(5) rem by simp
  moreover have "\<forall>a. Some a \<in> set rs \<longrightarrow> pending fs' (st' a) = [] \<and> filesPaths (st' a) = filesPaths (st a)"
    using dr it(8) by simp
  moreover have "\<forall>a. Some a \<notin> set rs \<longrightarrow> st' a = st a" using it(7) by simp
  ultimately show ?thesis by blast
qed

section \<open>Empty readers\<close>

text \<open>
  Claim C8. A reader whose emptiness flag is set answers every \<^verbatim>\<open>NextRecord\<close> with the
  \<open>Empty\<close> error and is left exactly as it was: the latch has not fired (no producer),
  and nothing has been added to the error sink. The three constructions of an empty reader
  (an empty path, an empty list of paths, \<^verbatim>\<open>NewEmptyContentReader\<close>) set the flag and start
  with an empty sink, so \<^verbatim>\<open>GetError\<close> returns nothing after the call.
\<close>

theorem NextRecord_on_empty_reader:
  "(empty cr \<longrightarrow> NextRecord unmarshal fs cr = (Inl Empty, cr))
   \<and> (\<forall>r \<in> {NewContentReader [] key, NewMultiSourceContentReader [] key, NewEmptyContentReader key}.
        empty r \<and> \<not> once (snd (NextRecord unmarshal fs r))
        \<and> fst (GetError (snd (NextRecord unmarshal fs r))) = None)"
  by (simp add: NextRecord_def NewContentReader_def NewMultiSourceContentReader_def
      NewEmptyContentReader_def GetError_def queueGetError_def)

theorem NextRecord_on_empty_reader_witness:
  "empty (NewEmptyContentReader ''results'')
   \<and> NextRecord unmarshal_any \<lparr>files = [], busy = (\<lambda>p. 0), removeCalls = [], tmpOk = True\<rparr>
        (NewEmptyContentReader ''results'')
      = (Inl Empty, NewEmptyContentReader ''results'')
   \<and> NextRecord unmarshal_any \<lparr>files = [], busy = (\<lambda>p. 0), removeCalls = [], tmpOk = True\<rparr>
        (snd (NextRecord unmarshal_any \<lparr>files = [], busy = (\<lambda>p. 0), removeCalls = [], tmpOk = True\<rparr>
           (NewEmptyContentReader ''results'')))
      = (Inl Empty, NewEmptyContentReader ''results'')"
proof -
  have e: "empty (NewEmptyContentReader ''results'')"
    by (simp add: NewEmptyContentReader_def NewContentReader_def)
  show ?thesis
    using e NextRecord_on_empty_reader [of "NewEmptyContentReader ''results''" unmarshal_any
        "\<lparr>files = [], busy = (\<lambda>p. 0), removeCalls = [], tmpOk = True\<rparr>" "''results''"]
    by simp
qed

section \<open>Reset\<close>

text \<open>
  Claim C9. \<^verbatim>\<open>Reset\<close> changes only the data channel and the one-shot latch: the file
  paths, the array key, the cached length, the emptiness flag and the error sink are as
  before, so \<^verbatim>\<open>GetError\<close> returns after \<^verbatim>\<open>Reset\<close> the error it would have returned
  before, and leaves the same errors behind it.
\<close>

theorem Reset_frame:
  "Reset cr = cr\<lparr>dataChannel := dataChannel (Reset cr), once := once (Reset cr)\<rparr>
   \<and> filesPaths (Reset cr) = filesPaths cr
   \<and> arrayKey (Reset cr) = arrayKey cr
   \<and> length' (Reset cr) = length' cr
   \<and> empty (Reset cr) = empty cr
   \<and> errorsQueue (Reset cr) = errorsQueue cr
   \<and> fst (GetError (Reset cr)) = fst (GetError cr)
   \<and> errorsQueue (snd (GetError (Reset cr))) = errorsQueue (snd (GetError cr))"
  by (simp add: Reset_def GetError_def split: prod.splits)

section \<open>Positioning on the array key\<close>

text \<open>
  Claim C2, evaluated on the file \<^verbatim>\<open>{"other":[{"x":1}]}\<close> read with the array key
  \<^verbatim>\<open>results\<close>: the document has no such key, \<^verbatim>\<open>More\<close> is false at the first closing
  brace, \<^verbatim>\<open>findDecoderTargetPosition\<close> returns \<^verbatim>\<open>nil\<close> there, and the first
  \<^verbatim>\<open>NextRecord\<close> returns the end of the stream with nothing in the error sink.
\<close>

theorem missing_key_sinks_no_error:
  "findDecoderTargetPosition
     (NewDecoder [LBrace, LStr ''other'', Colon, LBrack, LBrace, LStr ''x'', Colon, LNum 1,
                  RBrace, RBrack, RBrace]) ''results'' True
   = (None, \<lparr>buf = [RBrace, RBrack, RBrace], tokenState = ObjectComma,
             tokenStack = [TopValue, ObjectValue, ArrayStart]\<rparr>)
   \<and> NextRecord unmarshal_any
       \<lparr>files = [(''f.json'', [LBrace, LStr ''other'', Colon, LBrack, LBrace, LStr ''x'', Colon,
                               LNum 1, RBrace, RBrack, RBrace])],
        busy = (\<lambda>p. 0), removeCalls = [], tmpOk = True\<rparr>
       (NewContentReader ''f.json'' ''results'')
     = (Inl EOF, (NewContentReader ''f.json'' ''results'')\<lparr>once := True\<rparr>)
   \<and> errorsQueue ((NewContentReader ''f.json'' ''results'')\<lparr>once := True\<rparr>) = []"
  by (simp add: decoder_eval readElements.simps NextRecord_def NewContentReader_def
      NewMultiSourceContentReader_def readSingleFile_def readFile_def)

text \<open>
  Claim C6 fails of the code, which compares every token with the target and has no notion
  of a key position, although its comment has it set the decoder at the desired key and
  return \<^verbatim>\<open>io.EOF\<close> when the key is not found. In \<^verbatim>\<open>{"a":"results"}\<close> the string
  \<^verbatim>\<open>results\<close> is only a value, and positioning on \<^verbatim>\<open>results\<close> returns \<^verbatim>\<open>nil\<close> after
  consuming the closing brace as the token to skip. In
  \<^verbatim>\<open>{"a":"results","results":[{"x":1}]}\<close> positioning stops at the value, skips the
  attribute name \<^verbatim>\<open>results\<close> in place of the bracket, and the reader, left in front of
  the colon, yields no record and sinks the error of decoding the array into a record.
\<close>

theorem positioning_matches_value_string:
  "findDecoderTargetPosition
     (NewDecoder [LBrace, LStr ''a'', Colon, LStr ''results'', RBrace]) ''results'' True
   = (None, \<lparr>buf = [], tokenState = TopValue, tokenStack = []\<rparr>)
   \<and> findDecoderTargetPosition
       (NewDecoder [LBrace, LStr ''a'', Colon, LStr ''results'', Comma, LStr ''results'', Colon,
                    LBrack, LBrace, LStr ''x'', Colon, LNum 1, RBrace, RBrack, RBrace])
       ''results'' True
     = (None, \<lparr>buf = [Colon, LBrack, LBrace, LStr ''x'', Colon, LNum 1, RBrace, RBrack, RBrace],
               tokenState = ObjectColon, tokenStack = [TopValue]\<rparr>)
   \<and> NextRecord unmarshal_any
       \<lparr>files = [(''f.json'', [LBrace, LStr ''a'', Colon, LStr ''results'', Comma,
                               LStr ''results'', Colon, LBrack, LBrace, LStr ''x'', Colon,
                               LNum 1, RBrace, RBrack, RBrace])],
        busy = (\<lambda>p. 0), removeCalls = [], tmpOk = True\<rparr>
       (NewContentReader ''f.json'' ''results'')
     = (Inl EOF, (NewContentReader ''f.json'' ''results'')
                   \<lparr>once := True, errorsQueue := [UnmarshalTypeError]\<rparr>)"
  by (simp add: decoder_eval readElements.simps NextRecord_def NewContentReader_def
      NewMultiSourceContentReader_def readSingleFile_def readFile_def AddError_def)

section \<open>Length\<close>

text \<open>
  Claim C5 as stated fails on a reader whose producer sinks an error. The file
  \<^verbatim>\<open>{"results":[{"x":1},2]}\<close> has one record and then an element that is no object:
  the first \<^verbatim>\<open>Length\<close> returns 0 with the error, the second returns 1 without one.
\<close>

theorem Length_differs_after_sunk_error:
  "Length
     \<lparr>files = [(''f.json'', [LBrace, LStr ''results'', Colon, LBrack, LBrace, LStr ''x'', Colon,
                            LNum 1, RBrace, Comma, LNum 2, RBrack, RBrace])],
      busy = (\<lambda>p. 0), removeCalls = [], tmpOk = True\<rparr>
     (NewContentReader ''f.json'' ''results'')
   = ((0, Some UnmarshalTypeError), (NewContentReader ''f.json'' ''results'')\<lparr>length' := 1\<rparr>)
   \<and> Length
     \<lparr>files = [(''f.json'', [LBrace, LStr ''results'', Colon, LBrack, LBrace, LStr ''x'', Colon,
                            LNum 1, RBrace, Comma, LNum 2, RBrack, RBrace])],
      busy = (\<lambda>p. 0), removeCalls = [], tmpOk = True\<rparr>
     ((NewContentReader ''f.json'' ''results'')\<lparr>length' := 1\<rparr>)
   = ((1, None), (NewContentReader ''f.json'' ''results'')\<lparr>length' := 1\<rparr>)"
  by (simp add: Length_def lengthLoop.simps decoder_eval readElements.simps NextRecord_def
      NewContentReader_def NewMultiSourceContentReader_def readSingleFile_def readFile_def
      Reset_def GetError_def queueGetError_def AddError_def ConvertToStruct_def
      json_of_gomap_def)

text \<open>
  Claim C5, amended. For a reader that is not empty, that no call has touched yet, and
  whose producer sinks no error on its source files: \<^verbatim>\<open>Length\<close> returns the number of
  records the producer sends; it leaves the reader reset and with that number cached, a
  state in which every further \<^verbatim>\<open>Length\<close> returns the same number and leaves the reader
  as it is; and a full \<^verbatim>\<open>NextRecord\<close> iteration after \<^verbatim>\<open>Length\<close> yields every record.
\<close>

theorem Length_idempotent_without_errors:
  assumes "unread cr" and "sunk fs (filesPaths cr) (arrayKey cr) = []"
  shows "Length fs cr
      = ((length (produced fs (filesPaths cr) (arrayKey cr)), None),
         cr\<lparr>length' := length (produced fs (filesPaths cr) (arrayKey cr))\<rparr>)
    \<and> Length fs (cr\<lparr>length' := length (produced fs (filesPaths cr) (arrayKey cr))\<rparr>)
      = ((length (produced fs (filesPaths cr) (arrayKey cr)), None),
         cr\<lparr>length' := length (produced fs (filesPaths cr) (arrayKey cr))\<rparr>)
    \<and> fst (drain unmarshal_any fs
         (cr\<lparr>length' := length (produced fs (filesPaths cr) (arrayKey cr))\<rparr>))
      = map json_of_gomap (produced fs (filesPaths cr) (arrayKey cr))"
proof -
  let ?n = "length (produced fs (filesPaths cr) (arrayKey cr))"
  from assms(1) have u: "\<not> empty cr" "\<not> once cr" "dataChannel cr = []" "errorsQueue cr = []"
    "length' cr = 0"
    by (simp_all add: unread_def)
  have first: "Length fs cr = ((?n, None), cr\<lparr>length' := ?n\<rparr>)"
    using u assms(2)
    by (simp add: Length_def lengthLoop_unread [OF assms(1)] Reset_def GetError_def
        queueGetError_def)
  have again: "Length fs (cr\<lparr>length' := ?n\<rparr>) = ((?n, None), cr\<lparr>length' := ?n\<rparr>)"
  proof (cases "?n = 0")
    case True
    with u(5) have "cr\<lparr>length' := ?n\<rparr> = cr" by simp
    with first show ?thesis by simp
  next
    case False
    with u show ?thesis by (simp add: Length_def)
  qed
  have "fst (drain unmarshal_any fs (cr\<lparr>length' := ?n\<rparr>))
      = map json_of_gomap (produced fs (filesPaths (cr\<lparr>length' := ?n\<rparr>)) (arrayKey (cr\<lparr>length' := ?n\<rparr>)))"
    using u by (intro drain_unread) simp_all
  with first again show ?thesis by simp
qed

theorem Length_idempotent_without_errors_witness:
  "unread (NewContentReader ''f.json'' ''results'')
   \<and> sunk \<lparr>files = [(''f.json'', [LBrace, LStr ''results'', Colon, LBrack, LBrace, LStr ''x'',
                                   Colon, LNum 1, RBrace, Comma, LNull, RBrack, RBrace])],
            busy = (\<lambda>p. 0), removeCalls = [], tmpOk = True\<rparr> [''f.json''] ''results'' = []
   \<and> Length \<lparr>files = [(''f.json'', [LBrace, LStr ''results'', Colon, LBrack, LBrace, LStr ''x'',
                                   Colon, LNum 1, RBrace, Comma, LNull, RBrack, RBrace])],
            busy = (\<lambda>p. 0), removeCalls = [], tmpOk = True\<rparr>
        (NewContentReader ''f.json'' ''results'')
      = ((2, None), (NewContentReader ''f.json'' ''results'')\<lparr>length' := 2\<rparr>)
   \<and> fst (drain unmarshal_any
        \<lparr>files = [(''f.json'', [LBrace, LStr ''results'', Colon, LBrack, LBrace, LStr ''x'',
                                   Colon, LNum 1, RBrace, Comma, LNull, RBrack, RBrace])],
            busy = (\<lambda>p. 0), removeCalls = [], tmpOk = True\<rparr>
        ((NewContentReader ''f.json'' ''results'')\<lparr>length' := 2\<rparr>))
      = [JObj [(''x'', JNum 1)], JNull]"
proof -
  let ?fs = "\<lparr>files = [(''f.json'', [LBrace, LStr ''results'', Colon, LBrack, LBrace, LStr ''x'',
                                   Colon, LNum 1, RBrace, Comma, LNull, RBrack, RBrace])],
            busy = (\<lambda>p. 0), removeCalls = [], tmpOk = True\<rparr>"
  let ?cr = "NewContentReader ''f.json'' ''results''"
  have u: "unread ?cr"
    by (simp add: unread_def NewContentReader_def NewMultiSourceContentReader_def)
  have p: "produced ?fs (filesPaths ?cr) (arrayKey ?cr) = [Some [(''x'', JNum 1)], None]"
    and s: "sunk ?fs (filesPaths ?cr) (arrayKey ?cr) = []"
    by (simp_all add: produced_def sunk_def NewContentReader_def NewMultiSourceContentReader_def
        blank_def decoder_eval readElements.simps readSingleFile_def readFile_def)
  show ?thesis
    using u s p Length_idempotent_without_errors [OF u s]
    by (simp add: json_of_gomap_def NewContentReader_def NewMultiSourceContentReader_def
        numeral_2_eq_2)
qed

section \<open>Evaluation on concrete disks\<close>

lemmas reader_eval = NextRecord_def NewContentReader_def NewMultiSourceContentReader_def
  readSingleFile_def readFile_def readElements.simps ConvertToStruct_def json_of_gomap_def
  GetError_def queueGetError_def AddError_def Reset_def

lemmas writer_eval = NewContentWriter_def Write_def CloseWriter_def createFile_def
  appendFile_def freshPath_def GetFilePath_def GetArrayKey_def errorsJoin_def

text \<open>Scenario S6 of the spec: readers over \<^verbatim>\<open>[{a:1}]\<close> and \<^verbatim>\<open>[{a:2},{a:3}]\<close>.\<close>

definition s6Disk :: filesys where
  "s6Disk = \<lparr>files = [(''a.json'', [LBrace, LStr ''items'', Colon, LBrack,
                                     LBrace, LStr ''a'', Colon, LNum 1, RBrace, RBrack, RBrace]),
                       (''b.json'', [LBrace, LStr ''items'', Colon, LBrack,
                                     LBrace, LStr ''a'', Colon, LNum 2, RBrace, Comma,
                                     LBrace, LStr ''a'', Colon, LNum 3, RBrace, RBrack, RBrace])],
              busy = (\<lambda>p. 0), removeCalls = [], tmpOk = True\<rparr>"

definition s6Store :: store where
  "s6Store a =
     (if a = 0 then NewContentReader ''a.json'' ''items''
      else if a = 1 then NewContentReader ''b.json'' ''items''
      else NewEmptyContentReader ''items'')"

text \<open>
  The prototype of a Go type with the one attribute \<^verbatim>\<open>name\<close>, a string, which is its sort
  key. Unmarshalling a record into the type assigns the attribute \<^verbatim>\<open>name\<close> and skips every
  other attribute of the record.
\<close>

fun nameField :: "(string \<times> json) list \<Rightarrow> string \<Rightarrow> error + string" where
  "nameField [] s = Inr s"
| "nameField ((k, v) # kvs) s =
     (if k = ''name'' then
        (case v of
           JStr t \<Rightarrow> nameField kvs t
         | JNull \<Rightarrow> nameField kvs s
         | _ \<Rightarrow> Inl UnmarshalTypeError)
      else nameField kvs s)"

definition nameProto :: "string prototype" where
  "nameProto =
     \<lparr>unmarshalItem =
        (\<lambda>v. case v of
               JObj kvs \<Rightarrow> nameField kvs []
             | JNull \<Rightarrow> Inr []
             | _ \<Rightarrow> Inl UnmarshalTypeError),
      marshalItem = (\<lambda>s. JObj [(''name'', JStr s)]),
      itemSortKey = (\<lambda>s. s),
      assertable = True\<rparr>"

text \<open>Two sorted readers of such items; the key \<^verbatim>\<open>c\<close> is in both.\<close>

definition tieDisk :: filesys where
  "tieDisk =
     \<lparr>files = [(''a.json'', container ''results''
                               [JObj [(''name'', JStr ''a'')], JObj [(''name'', JStr ''c'')]]),
               (''b.json'', container ''results''
                               [JObj [(''name'', JStr ''b'')], JObj [(''name'', JStr ''c'')]])],
      busy = (\<lambda>p. 0), removeCalls = [], tmpOk = True\<rparr>"

definition tieStore :: store where
  "tieStore a =
     (if a = 0 then NewContentReader ''a.json'' ''results''
      else NewContentReader ''b.json'' ''results'')"

text \<open>A reader of records that have an attribute \<^verbatim>\<open>size\<close> beside the attribute \<^verbatim>\<open>name\<close>.\<close>

definition sizeDisk :: filesys where
  "sizeDisk =
     \<lparr>files = [(''a.json'', container ''results''
                               [JObj [(''name'', JStr ''a''), (''size'', JNum 1)],
                                JObj [(''name'', JStr ''b''), (''size'', JNum 2)]])],
      busy = (\<lambda>p. 0), removeCalls = [], tmpOk = True\<rparr>"

definition sizeStore :: store where
  "sizeStore a = NewContentReader ''a.json'' ''results''"



section \<open>MergeReaders\<close>

text \<open>
  \<open>recordsAt fs st p\<close>: the records a full iteration of the reader at the pointer \<open>p\<close>
  yields, on the disk \<open>fs\<close> and in the store \<open>st\<close>.
\<close>

definition recordsAt :: "filesys \<Rightarrow> store \<Rightarrow> nat option \<Rightarrow> json list" where
  "recordsAt fs st p = (case p of None \<Rightarrow> [] | Some a \<Rightarrow> fst (drain unmarshal_any fs (st a)))"

lemma recordsAt_pendingAt: "recordsAt fs st = pendingAt fs st"
  by (rule ext) (simp add: recordsAt_def pendingAt_def drain_pending split: option.splits)

text \<open>
  Claim C4. When \<^verbatim>\<open>MergeReaders\<close> succeeds on a list of pointers to readers, none of them
  over the path of the temporary file the writer creates: no pointer of the list is
  \<^verbatim>\<open>nil\<close>; the reader returned is a reader over that file, the file is the closed container
  of the given key, and a full iteration of the returned reader yields the concatenation,
  in the order of the list, of what a full iteration of each input reader yields, a reader
  named more than once giving its records at its first place in the list (at a later
  place it is drained already); every reader of the list is left drained, so that the next
  \<^verbatim>\<open>NextRecord\<close> on it returns an error, and over the files it was over; and every other
  reader of the store is as it was. For a list that names no reader twice, \<open>firsts arr\<close> is
  the list itself (lemma \<open>firsts_distinct\<close>).
\<close>

theorem MergeReaders_concatenates:
  assumes "MergeReaders arr key st fs = ((Some out, None), fs', st')"
    and "\<forall>a. Some a \<in> set arr \<longrightarrow> freshPath fs \<notin> set (filesPaths (st a))"
  shows "out = NewContentReader (freshPath fs) key
    \<and> readFile fs' (freshPath fs) = Some (container key (concat (map (recordsAt fs st) (firsts arr))))
    \<and> fst (drain unmarshal_any fs' out) = concat (map (recordsAt fs st) (firsts arr))
    \<and> None \<notin> set arr
    \<and> (\<forall>a. Some a \<in> set arr \<longrightarrow>
          fst (drain unmarshal_any fs' (st' a)) = []
          \<and> isl (fst (NextRecord unmarshal_any fs' (st' a)))
          \<and> filesPaths (st' a) = filesPaths (st a))
    \<and> (\<forall>a. Some a \<notin> set arr \<longrightarrow> st' a = st a)"
proof -
  from assms(1) obtain cw fs1 where nw: "NewContentWriter key fs = (Inr cw, fs1)"
    by (auto simp: MergeReaders_def split: prod.splits sum.splits)
  from NewContentWriter_writing [OF nw] have o: "outputFile cw = freshPath fs"
    and w: "writing cw fs1 key []" and s: "sameElsewhere (freshPath fs) fs fs1"
    by simp_all
  from assms(1) nw obtain fs2 cw2 ce cw3 where
    ml: "mergeLoop arr st fs1 cw = (None, st', fs2, cw2)"
    and cl: "CloseWriter cw2 fs2 = (ce, cw3, fs')"
    and out: "out = NewContentReader (GetFilePath cw2) key"
    by (auto simp: MergeReaders_def split: prod.splits option.splits)
  have nf: "\<forall>a. Some a \<in> set arr \<longrightarrow> outputFile cw \<notin> set (filesPaths (st a))"
    using assms(2) o by simp
  let ?vs = "concat (map (pendingAt fs st) (firsts arr))"
  have "map (pendingAt fs1 st) (firsts arr) = map (pendingAt fs st) (firsts arr)"
  proof (rule map_cong [OF refl])
    fix q
    assume "q \<in> set (firsts arr)"
    then have "q \<in> set arr" by (simp add: set_firsts)
    with assms(2) pending_sameElsewhere [OF s] show "pendingAt fs1 st q = pendingAt fs st q"
      by (cases q) (simp_all add: pendingAt_def)
  qed
  with mergeLoop_writes [OF w nf ml] have
    w2: "writing cw2 fs2 key ?vs" and o2: "outputFile cw2 = freshPath fs"
    and nn: "None \<notin> set arr"
    and dr: "\<forall>a. Some a \<in> set arr \<longrightarrow> (\<forall>fs'. pending fs' (st' a) = [])"
    and fq: "\<forall>a. filesPaths (st' a) = filesPaths (st a)"
    and un: "\<forall>a. Some a \<notin> set arr \<longrightarrow> st' a = st a"
    by (simp_all add: o)
  from CloseWriter_writing [OF w2 cl] o2 have
    rf: "readFile fs' (freshPath fs) = Some (container key ?vs)"
    by simp
  have o3: "out = NewContentReader (freshPath fs) key"
    using out o2 by (simp add: GetFilePath_def)
  have "\<forall>x \<in> set ?vs. isRecord x \<and> unmarshal_any x = Inr x"
    by (auto simp: pendingAt_def unmarshal_any_def json_of_gomap_def split: option.splits)
  with rf have "readFile fs' (freshPath fs) = Some (container key (map (\<lambda>v. v) ?vs))"
    and "\<forall>x \<in> set ?vs. isRecord ((\<lambda>v. v) x) \<and> unmarshal_any ((\<lambda>v. v) x) = Inr x"
    by simp_all
  from reader_over_container [OF this(1) freshPath_fresh(2) this(2)] have
    "allConvert unmarshal_any fs' out" "itemsOf unmarshal_any fs' out = ?vs"
    by (simp_all add: o3)
  with drain_items have v: "fst (drain unmarshal_any fs' out) = ?vs" by metis
  have "fst (drain unmarshal_any fs' (st' a)) = []
      \<and> isl (fst (NextRecord unmarshal_any fs' (st' a)))" if "Some a \<in> set arr" for a
  proof -
    from dr that have p: "pending fs' (st' a) = []" by simp
    from NextRecord_um_Nil [OF p, of unmarshal_any] p show ?thesis
      by (auto simp: drain_pending)
  qed
  with o3 rf v nn fq un show ?thesis
    by (simp add: recordsAt_pendingAt)
qed

theorem MergeReaders_concatenates_witness:
  "fst (MergeReaders [Some 0, Some 1] ''items'' s6Store s6Disk)
     = (Some (NewContentReader ''ttttttt'' ''items''), None)
   \<and> firsts [Some (0::nat), Some 1] = [Some 0, Some 1]
   \<and> fst (drain unmarshal_any (fst (snd (MergeReaders [Some 0, Some 1] ''items'' s6Store s6Disk)))
          (NewContentReader ''ttttttt'' ''items''))
     = [JObj [(''a'', JNum 1)], JObj [(''a'', JNum 2)], JObj [(''a'', JNum 3)]]
   \<and> fst (drain unmarshal_any (fst (snd (MergeReaders [Some 0, Some 1] ''items'' s6Store s6Disk)))
          (snd (snd (MergeReaders [Some 0, Some 1] ''items'' s6Store s6Disk)) 0)) = []
   \<and> fst (drain unmarshal_any (fst (snd (MergeReaders [Some 0, Some 1] ''items'' s6Store s6Disk)))
          (snd (snd (MergeReaders [Some 0, Some 1] ''items'' s6Store s6Disk)) 1)) = []
   \<and> snd (snd (MergeReaders [Some 0, Some 1] ''items'' s6Store s6Disk)) 2 = s6Store 2"
proof -
  let ?m = "MergeReaders [Some 0, Some 1] ''items'' s6Store s6Disk"
  have e: "fst ?m = (Some (NewContentReader ''ttttttt'' ''items''), None)"
    by (simp add: MergeReaders_def s6Store_def s6Disk_def mergeDrain.simps decoder_eval
        reader_eval writer_eval)
  then have m: "?m = ((Some (NewContentReader ''ttttttt'' ''items''), None), fst (snd ?m), snd (snd ?m))"
    by (metis prod.collapse)
  have f: "\<forall>a. Some a \<in> set [Some 0, Some 1] \<longrightarrow> freshPath s6Disk \<notin> set (filesPaths (s6Store a))"
    by (simp add: s6Store_def s6Disk_def freshPath_def NewContentReader_def
        NewMultiSourceContentReader_def)
  have d: "concat (map (recordsAt s6Disk s6Store) (firsts [Some 0, Some 1]))
      = [JObj [(''a'', JNum 1)], JObj [(''a'', JNum 2)], JObj [(''a'', JNum 3)]]"
    by (simp add: recordsAt_def s6Store_def s6Disk_def drain.simps decoder_eval reader_eval)
  note t = MergeReaders_concatenates [OF m f]
  from t have "fst (drain unmarshal_any (fst (snd ?m)) (NewContentReader ''ttttttt'' ''items''))
      = concat (map (recordsAt s6Disk s6Store) (firsts [Some 0, Some 1]))"
    by blast
  from trans [OF this d]
  have v: "fst (drain unmarshal_any (fst (snd ?m)) (NewContentReader ''ttttttt'' ''items''))
      = [JObj [(''a'', JNum 1)], JObj [(''a'', JNum 2)], JObj [(''a'', JNum 3)]]" .
  from t have dr: "\<forall>a. Some a \<in> set [Some 0, Some 1] \<longrightarrow>
      fst (drain unmarshal_any (fst (snd ?m)) (snd (snd ?m) a)) = []"
    by blast
  from t have un: "\<forall>a. Some a \<notin> set [Some 0, Some 1] \<longrightarrow> snd (snd ?m) a = s6Store a"
    by blast
  have "fst (drain unmarshal_any (fst (snd ?m)) (snd (snd ?m) 0)) = []"
    "fst (drain unmarshal_any (fst (snd ?m)) (snd (snd ?m) 1)) = []"
    using dr by simp_all
  moreover have "snd (snd ?m) 2 = s6Store 2" using un by simp
  moreover have "firsts [Some (0::nat), Some 1] = [Some 0, Some 1]" by simp
  ultimately show ?thesis using e v by blast
qed

text \<open>
  A list that names one reader twice: the second time the loop meets the reader drained,
  and its records are written once.
\<close>

lemma MergeReaders_reader_named_twice:
  "fst (MergeReaders [Some 1, Some 1] ''items'' s6Store s6Disk)
     = (Some (NewContentReader ''ttttttt'' ''items''), None)
   \<and> readFile (fst (snd (MergeReaders [Some 1, Some 1] ''items'' s6Store s6Disk))) ''ttttttt''
     = Some (container ''items'' [JObj [(''a'', JNum 2)], JObj [(''a'', JNum 3)]])"
  by (simp add: MergeReaders_def s6Store_def s6Disk_def mergeDrain.simps decoder_eval
      reader_eval writer_eval container_def)

section \<open>Sorting and merging nothing\<close>

text \<open>
  Claim C10. Sorting a reader whose emptiness flag is set (its error sink is empty, since
  nothing is ever sunk into such a reader) yields no runs and returns, with no error, a
  reader that is empty; merging an empty list of runs by calculated key, and
  \<^verbatim>\<open>MergeSortedReaders\<close> on an empty list, return an empty reader with no error. None of
  them touches the disk.
\<close>

theorem sorting_nothing_gives_empty_reader:
  "(empty reader \<and> errorsQueue reader = [] \<longrightarrow>
      splitReaderToSortedBufferSizeReadersByCalculatedKey B reader getKeyFunc asc fs
        = (Inr [], fs, Reset reader)
      \<and> SortContentReaderByCalculatedKey B reader getKeyFunc asc fs
        = ((Some (NewEmptyContentReader DefaultKey), None), fs, Reset reader))
   \<and> mergeSortedReadersByCalculatedKey [] asc fs = ((Some (NewEmptyContentReader DefaultKey), None), fs)
   \<and> MergeSortedReaders proto [] asc st fs
       = ((Some (NewEmptyContentReader DefaultKey), None), fs, st)
   \<and> IsEmpty (NewEmptyContentReader DefaultKey)"
proof -
  have m: "mergeSortedReadersByCalculatedKey [] asc fs
      = ((Some (NewEmptyContentReader DefaultKey), None), fs)"
    by (simp add: mergeSortedReadersByCalculatedKey_def)
  have sp: "splitReaderToSortedBufferSizeReadersByCalculatedKey B reader getKeyFunc asc fs
        = (Inr [], fs, Reset reader)" if "empty reader" "errorsQueue reader = []"
  proof -
    from that(2) have eq: "reader\<lparr>errorsQueue := []\<rparr> = reader"
      by (cases reader) simp
    from that have "splitReaderToSortedBufferSizeReadersByCalculatedKey B reader getKeyFunc asc fs
        = (Inr [], fs, Reset (reader\<lparr>errorsQueue := []\<rparr>))"
      by (simp add: splitReaderToSortedBufferSizeReadersByCalculatedKey_def
          splitLoop.simps [of B getKeyFunc asc fs reader] NextRecord_def GetError_def
          queueGetError_def)
    then show ?thesis by (simp only: eq)
  qed
  have "SortContentReaderByCalculatedKey B reader getKeyFunc asc fs
        = ((Some (NewEmptyContentReader DefaultKey), None), fs, Reset reader)"
    if "empty reader" "errorsQueue reader = []"
    by (simp add: SortContentReaderByCalculatedKey_def sp [OF that] m)
  with sp m show ?thesis
    by (simp add: MergeSortedReaders_def IsEmpty_def NewEmptyContentReader_def
        NewContentReader_def)
qed

theorem sorting_nothing_gives_empty_reader_witness:
  "empty (NewEmptyContentReader ''results'') \<and> errorsQueue (NewEmptyContentReader ''results'') = []
   \<and> fst (NextRecord unmarshal_any s6Disk (NewEmptyContentReader ''results'')) = Inl Empty
   \<and> SortContentReaderByCalculatedKey 2 (NewEmptyContentReader ''results'') (\<lambda>v. Inr []) True s6Disk
     = ((Some (NewEmptyContentReader DefaultKey), None), s6Disk,
        Reset (NewEmptyContentReader ''results''))"
proof -
  have e: "empty (NewEmptyContentReader ''results'') \<and> errorsQueue (NewEmptyContentReader ''results'') = []"
    by (simp add: NewEmptyContentReader_def NewContentReader_def NewMultiSourceContentReader_def)
  have n: "fst (NextRecord unmarshal_any s6Disk (NewEmptyContentReader ''results'')) = Inl Empty"
    using e by (simp add: NextRecord_def)
  from e n sorting_nothing_gives_empty_reader [of "NewEmptyContentReader ''results''" 2
      "\<lambda>v. Inr []" True s6Disk
      "\<lparr>unmarshalItem = unmarshal_SortRecord, marshalItem = marshal_SortRecord,
        itemSortKey = GetSortKey, assertable = True\<rparr>" s6Store]
  show ?thesis by simp
qed

section \<open>MergeSortedReaders\<close>

text \<open>
  \<open>itemsAt proto fs st p\<close>: the items that the records left in the reader at the pointer
  \<open>p\<close> convert into.
\<close>

definition itemsAt :: "'s prototype \<Rightarrow> filesys \<Rightarrow> store \<Rightarrow> nat option \<Rightarrow> 's list" where
  "itemsAt proto fs st p =
     (case p of None \<Rightarrow> [] | Some a \<Rightarrow> itemsOf (unmarshalItem proto) fs (st a))"

lemma itemsAt_recordsAt:
  "itemsAt proto fs st p = map (\<lambda>r. projr (unmarshalItem proto r)) (recordsAt fs st p)"
  by (cases p)
     (simp_all add: itemsAt_def recordsAt_def drain_pending itemsOf_def ConvertToStruct_def)

text \<open>
  Claim C3 as stated fails: the records of the reader returned are not the records of the
  input readers, but the items they convert into, marshalled again. With a prototype whose
  type has the attribute \<^verbatim>\<open>name\<close> only, the input records
  \<^verbatim>\<open>{"name":"a","size":1}\<close>, \<^verbatim>\<open>{"name":"b","size":2}\<close> come out as
  \<^verbatim>\<open>{"name":"a"}\<close>, \<^verbatim>\<open>{"name":"b"}\<close>.
\<close>

theorem MergeSortedReaders_writes_items_not_records:
  "fst (MergeSortedReaders nameProto [Some 0] True sizeStore sizeDisk)
     = (Some (NewContentReader ''ttttttt'' ''results''), None)
   \<and> fst (drain unmarshal_any sizeDisk (sizeStore 0))
     = [JObj [(''name'', JStr ''a''), (''size'', JNum 1)],
        JObj [(''name'', JStr ''b''), (''size'', JNum 2)]]
   \<and> fst (drain unmarshal_any
            (fst (snd (MergeSortedReaders nameProto [Some 0] True sizeStore sizeDisk)))
            (NewContentReader ''ttttttt'' ''results''))
     = [JObj [(''name'', JStr ''a'')], JObj [(''name'', JStr ''b'')]]"
proof -
  let ?m = "MergeSortedReaders nameProto [Some 0] True sizeStore sizeDisk"
  let ?vs = "[JObj [(''name'', JStr ''a'')], JObj [(''name'', JStr ''b'')]]"
  have e: "fst ?m = (Some (NewContentReader ''ttttttt'' ''results''), None)"
    and rf: "readFile (fst (snd ?m)) ''ttttttt'' = Some (container ''results'' (map (\<lambda>v. v) ?vs))"
    by (simp_all add: MergeSortedReaders_def sizeStore_def sizeDisk_def nameProto_def
        container_def DefaultKey_def mergeItemsLoop.simps compareStrings_def decoder_eval
        reader_eval writer_eval)
  have "\<forall>x \<in> set ?vs. isRecord ((\<lambda>v. v) x) \<and> unmarshal_any ((\<lambda>v. v) x) = Inr x"
    by (simp add: unmarshal_any_def)
  from reader_over_container [OF rf _ this] have
    "allConvert unmarshal_any (fst (snd ?m)) (NewContentReader ''ttttttt'' ''results'')"
    "itemsOf unmarshal_any (fst (snd ?m)) (NewContentReader ''ttttttt'' ''results'') = ?vs"
    by simp_all
  with drain_items have
    v: "fst (drain unmarshal_any (fst (snd ?m)) (NewContentReader ''ttttttt'' ''results'')) = ?vs"
    by metis
  have d: "fst (drain unmarshal_any sizeDisk (sizeStore 0))
      = [JObj [(''name'', JStr ''a''), (''size'', JNum 1)],
         JObj [(''name'', JStr ''b''), (''size'', JNum 2)]]"
    by (simp add: sizeStore_def sizeDisk_def container_def drain.simps decoder_eval reader_eval)
  from e v d show ?thesis by blast
qed

text \<open>
  Claim C3, amended. Take a list of pointers to readers, in a store where the records left
  in each reader of the list convert into the type of the prototype, giving items sorted by
  \<^verbatim>\<open>GetSortKey\<close> in the direction asked for, and where no reader of the list is over the
  path of the temporary file; let the type marshal every item to a record that unmarshals
  to the item again. When \<^verbatim>\<open>MergeSortedReaders\<close> succeeds: the records of the reader
  returned are the JSON forms of the items a full iteration of it yields; these items are
  sorted by \<^verbatim>\<open>GetSortKey\<close> in that direction; they are, as a multiset, the items of the
  readers of the list, each reader counted once however often the list names it, so that
  ties lose nothing; the records returned are, as a multiset, the records of these readers
  each converted into the type and marshalled again; every reader of the list is left
  drained, over the files it was over, and every other reader of the store is as it was.
\<close>

theorem MergeSortedReaders_sorted_union:
  assumes "MergeSortedReaders proto rs asc st fs = ((Some out, None), fs', st')"
    and "\<forall>a. Some a \<in> set rs \<longrightarrow>
          allConvert (unmarshalItem proto) fs (st a) \<and> freshPath fs \<notin> set (filesPaths (st a))
          \<and> sorted_wrt (keyBefore proto asc) (itemsOf (unmarshalItem proto) fs (st a))"
    and "\<forall>x. isRecord (marshalItem proto x) \<and> unmarshalItem proto (marshalItem proto x) = Inr x"
  shows "fst (drain unmarshal_any fs' out)
      = map (marshalItem proto) (fst (drain (unmarshalItem proto) fs' out))
    \<and> sorted_wrt (keyBefore proto asc) (fst (drain (unmarshalItem proto) fs' out))
    \<and> mset (fst (drain (unmarshalItem proto) fs' out))
      = mset (concat (map (itemsAt proto fs st) (firsts rs)))
    \<and> mset (fst (drain unmarshal_any fs' out))
      = mset (map (\<lambda>r. marshalItem proto (projr (unmarshalItem proto r)))
               (concat (map (recordsAt fs st) (firsts rs))))
    \<and> (\<forall>a. Some a \<in> set rs \<longrightarrow>
          fst (drain (unmarshalItem proto) fs' (st' a)) = []
          \<and> isl (fst (NextRecord (unmarshalItem proto) fs' (st' a)))
          \<and> filesPaths (st' a) = filesPaths (st a))
    \<and> (\<forall>a. Some a \<notin> set rs \<longrightarrow> st' a = st a)"
proof (cases "rs = []")
  case True
  with assms(1) have o: "out = NewEmptyContentReader DefaultKey" and s: "st' = st"
    by (simp_all add: MergeSortedReaders_def)
  from o have "empty out"
    by (simp add: NewEmptyContentReader_def NewContentReader_def)
  then have "fst (drain (unmarshalItem proto) fs' out) = []" "fst (drain unmarshal_any fs' out) = []"
    by (simp_all add: drain.simps [of _ fs' out] NextRecord_def)
  with True s show ?thesis by simp
next
  case False
  let ?um = "unmarshalItem proto"
  from MergeSortedReaders_written [OF assms(1,2) False] obtain items where
    o: "out = NewContentReader (freshPath fs) DefaultKey"
    and rf: "readFile fs' (freshPath fs) = Some (container DefaultKey (map (marshalItem proto) items))"
    and srt: "sorted_wrt (keyBefore proto asc) items"
    and ms: "mset items = (\<Sum>a\<in>Some -` set rs. mset (itemsOf ?um fs (st a)))"
    and dr: "\<forall>a. Some a \<in> set rs \<longrightarrow> pending fs' (st' a) = [] \<and> filesPaths (st' a) = filesPaths (st a)"
    and un: "\<forall>a. Some a \<notin> set rs \<longrightarrow> st' a = st a"
    by blast
  have "\<forall>x \<in> set items. isRecord (marshalItem proto x) \<and> ?um (marshalItem proto x) = Inr x"
    using assms(3) by simp
  from reader_over_container [OF rf freshPath_fresh(2) this] have
    "allConvert ?um fs' out" "itemsOf ?um fs' out = items"
    by (simp_all add: o)
  with drain_items have vt: "fst (drain ?um fs' out) = items" by metis
  have rf': "readFile fs' (freshPath fs)
      = Some (container DefaultKey (map (\<lambda>v. v) (map (marshalItem proto) items)))"
    using rf by simp
  have "\<forall>x \<in> set (map (marshalItem proto) items).
      isRecord ((\<lambda>v. v) x) \<and> unmarshal_any ((\<lambda>v. v) x) = Inr x"
    using assms(3) by (auto simp: unmarshal_any_def)
  from reader_over_container [OF rf' freshPath_fresh(2) this] have
    "allConvert unmarshal_any fs' out"
    "itemsOf unmarshal_any fs' out = map (marshalItem proto) items"
    by (simp_all add: o)
  with drain_items have vr: "fst (drain unmarshal_any fs' out) = map (marshalItem proto) items"
    by metis
  have "Some -` set (firsts rs) = Some -` set rs" by (simp add: set_firsts)
  with sum_over_pointers [OF distinct_firsts, of "\<lambda>a. itemsOf ?um fs (st a)" rs] ms
  have mi: "mset items = mset (concat (map (itemsAt proto fs st) (firsts rs)))"
    by (simp add: itemsAt_def [abs_def])
  have "map (marshalItem proto) (concat (map (itemsAt proto fs st) (firsts rs)))
      = map (\<lambda>r. marshalItem proto (projr (?um r))) (concat (map (recordsAt fs st) (firsts rs)))"
    by (simp add: map_concat itemsAt_recordsAt comp_def)
  moreover have "mset (map (marshalItem proto) items)
      = mset (map (marshalItem proto) (concat (map (itemsAt proto fs st) (firsts rs))))"
    using mi by (simp only: mset_map)
  ultimately have mr: "mset (fst (drain unmarshal_any fs' out))
      = mset (map (\<lambda>r. marshalItem proto (projr (?um r))) (concat (map (recordsAt fs st) (firsts rs))))"
    by (simp only: vr)
  have "fst (drain ?um fs' (st' a)) = [] \<and> isl (fst (NextRecord ?um fs' (st' a)))"
    if "Some a \<in> set rs" for a
  proof -
    from dr that have p: "pending fs' (st' a) = []" by simp
    then have "allConvert ?um fs' (st' a)" "itemsOf ?um fs' (st' a) = []"
      by (simp_all add: allConvert_def itemsOf_def)
    with drain_items [of ?um fs' "st' a"] NextRecord_um_Nil [OF p, of ?um] show ?thesis
      by auto
  qed
  with vt vr srt mi mr dr un show ?thesis by simp
qed

theorem MergeSortedReaders_sorted_union_witness:
  "fst (MergeSortedReaders nameProto [Some 0, Some 1] True tieStore tieDisk)
     = (Some (NewContentReader ''ttttttt'' ''results''), None)
   \<and> fst (drain unmarshal_any
            (fst (snd (MergeSortedReaders nameProto [Some 0, Some 1] True tieStore tieDisk)))
            (NewContentReader ''ttttttt'' ''results''))
     = map (marshalItem nameProto)
         (fst (drain (unmarshalItem nameProto)
                (fst (snd (MergeSortedReaders nameProto [Some 0, Some 1] True tieStore tieDisk)))
                (NewContentReader ''ttttttt'' ''results'')))
   \<and> sorted_wrt (keyBefore nameProto True)
       (fst (drain (unmarshalItem nameProto)
              (fst (snd (MergeSortedReaders nameProto [Some 0, Some 1] True tieStore tieDisk)))
              (NewContentReader ''ttttttt'' ''results'')))
   \<and> mset (fst (drain (unmarshalItem nameProto)
              (fst (snd (MergeSortedReaders nameProto [Some 0, Some 1] True tieStore tieDisk)))
              (NewContentReader ''ttttttt'' ''results'')))
     = mset [''a'', ''c'', ''b'', ''c'']
   \<and> fst (drain (unmarshalItem nameProto)
            (fst (snd (MergeSortedReaders nameProto [Some 0, Some 1] True tieStore tieDisk)))
            (snd (snd (MergeSortedReaders nameProto [Some 0, Some 1] True tieStore tieDisk)) 0)) = []
   \<and> fst (drain (unmarshalItem nameProto)
            (fst (snd (MergeSortedReaders nameProto [Some 0, Some 1] True tieStore tieDisk)))
            (snd (snd (MergeSortedReaders nameProto [Some 0, Some 1] True tieStore tieDisk)) 1)) = []"
proof -
  let ?m = "MergeSortedReaders nameProto [Some 0, Some 1] True tieStore tieDisk"
  let ?out = "NewContentReader ''ttttttt'' ''results''"
  have e: "fst ?m = (Some ?out, None)"
    by (simp add: MergeSortedReaders_def tieStore_def tieDisk_def nameProto_def container_def
        DefaultKey_def mergeItemsLoop.simps compareStrings_def decoder_eval reader_eval
        writer_eval)
  then have m: "?m = ((Some ?out, None), fst (snd ?m), snd (snd ?m))"
    by (metis prod.collapse)
  have pa: "pending tieDisk (tieStore 0)
      = [Some [(''name'', JStr ''a'')], Some [(''name'', JStr ''c'')]]"
    and pb: "pending tieDisk (tieStore (Suc 0))
      = [Some [(''name'', JStr ''b'')], Some [(''name'', JStr ''c'')]]"
    by (simp_all add: pending_def produced_def blank_def tieStore_def tieDisk_def container_def
        decoder_eval reader_eval)
  have ia: "itemsOf (unmarshalItem nameProto) tieDisk (tieStore 0) = [''a'', ''c'']"
    and ib: "itemsOf (unmarshalItem nameProto) tieDisk (tieStore (Suc 0)) = [''b'', ''c'']"
    by (simp_all add: itemsOf_def pa pb nameProto_def ConvertToStruct_def json_of_gomap_def)
  have h2: "\<forall>a. Some a \<in> set [Some 0, Some 1] \<longrightarrow>
      allConvert (unmarshalItem nameProto) tieDisk (tieStore a)
      \<and> freshPath tieDisk \<notin> set (filesPaths (tieStore a))
      \<and> sorted_wrt (keyBefore nameProto True) (itemsOf (unmarshalItem nameProto) tieDisk (tieStore a))"
    by (simp add: ia ib allConvert_def pa pb)
       (simp add: nameProto_def ConvertToStruct_def json_of_gomap_def keyBefore_def before_def
         tieDisk_def tieStore_def freshPath_def NewContentReader_def
         NewMultiSourceContentReader_def container_def)
  have h3: "\<forall>x. isRecord (marshalItem nameProto x)
      \<and> unmarshalItem nameProto (marshalItem nameProto x) = Inr x"
    by (simp add: nameProto_def)
  note t = MergeSortedReaders_sorted_union [OF m h2 h3]
  from t have t1: "fst (drain unmarshal_any (fst (snd ?m)) ?out)
      = map (marshalItem nameProto) (fst (drain (unmarshalItem nameProto) (fst (snd ?m)) ?out))"
    and t2: "sorted_wrt (keyBefore nameProto True)
        (fst (drain (unmarshalItem nameProto) (fst (snd ?m)) ?out))"
    and t3: "mset (fst (drain (unmarshalItem nameProto) (fst (snd ?m)) ?out))
        = mset (concat (map (itemsAt nameProto tieDisk tieStore) (firsts [Some 0, Some 1])))"
    and t5: "\<forall>a. Some a \<in> set [Some 0, Some 1] \<longrightarrow>
        fst (drain (unmarshalItem nameProto) (fst (snd ?m)) (snd (snd ?m) a)) = []"
    by blast+
  have "concat (map (itemsAt nameProto tieDisk tieStore) (firsts [Some 0, Some 1]))
      = [''a'', ''c'', ''b'', ''c'']"
    by (simp add: itemsAt_def ia ib)
  with t3 have t3': "mset (fst (drain (unmarshalItem nameProto) (fst (snd ?m)) ?out))
      = mset [''a'', ''c'', ''b'', ''c'']"
    by (simp only:)
  have "fst (drain (unmarshalItem nameProto) (fst (snd ?m)) (snd (snd ?m) 0)) = []"
    "fst (drain (unmarshalItem nameProto) (fst (snd ?m)) (snd (snd ?m) 1)) = []"
    using t5 by simp_all
  with e t1 t2 t3' show ?thesis by blast
qed

text \<open>
  A list that names one reader twice: the two slots share the reader, and each of its
  items is written once.
\<close>

lemma MergeSortedReaders_reader_named_twice:
  "fst (MergeSortedReaders nameProto [Some 0, Some 0] True tieStore tieDisk)
     = (Some (NewContentReader ''ttttttt'' ''results''), None)
   \<and> readFile (fst (snd (MergeSortedReaders nameProto [Some 0, Some 0] True tieStore tieDisk)))
       ''ttttttt''
     = Some (container ''results'' [JObj [(''name'', JStr ''a'')], JObj [(''name'', JStr ''c'')]])"
  by (simp add: MergeSortedReaders_def tieStore_def tieDisk_def nameProto_def container_def
      DefaultKey_def mergeItemsLoop.simps compareStrings_def decoder_eval reader_eval
      writer_eval)

section \<open>SortContentReaderByCalculatedKey\<close>



end
